theory Spec2Isabelle
  imports Complex_Main "HOL-Library.Word"
begin

section \<open>Node Buffer primitives used by the decoder\<close>

text \<open>
  A Node \<^verbatim>\<open>Buffer\<close> is a list of bytes.  Offsets are JavaScript numbers and may be
  negative, so they are integers here; the fixed-width reads throw a range error
  when the requested bytes are not inside the buffer.
\<close>

type_synonym byte = "8 word"
type_synonym buffer = "byte list"

datatype js_error = RangeError

definition bind_res :: "js_error + 'a \<Rightarrow> ('a \<Rightarrow> js_error + 'b) \<Rightarrow> js_error + 'b" where
  "bind_res r f = (case r of Inl e \<Rightarrow> Inl e | Inr v \<Rightarrow> f v)"

text \<open>The value of the little-endian group that starts at index \<open>i\<close>.\<close>

definition le16 :: "buffer \<Rightarrow> nat \<Rightarrow> nat" where
  "le16 buf i = unat (buf ! i) + 256 * unat (buf ! (i + 1))"

definition le32 :: "buffer \<Rightarrow> nat \<Rightarrow> nat" where
  "le32 buf i = unat (buf ! i) + 256 * unat (buf ! (i + 1))
                + 65536 * unat (buf ! (i + 2)) + 16777216 * unat (buf ! (i + 3))"

definition readUInt8 :: "buffer \<Rightarrow> int \<Rightarrow> js_error + nat" where
  "readUInt8 buf off =
     (if 0 \<le> off \<and> off + 1 \<le> int (length buf)
      then Inr (unat (buf ! nat off))
      else Inl RangeError)"

definition readUInt16LE :: "buffer \<Rightarrow> int \<Rightarrow> js_error + nat" where
  "readUInt16LE buf off =
     (if 0 \<le> off \<and> off + 2 \<le> int (length buf)
      then Inr (le16 buf (nat off))
      else Inl RangeError)"

definition readUInt32LE :: "buffer \<Rightarrow> int \<Rightarrow> js_error + nat" where
  "readUInt32LE buf off =
     (if 0 \<le> off \<and> off + 4 \<le> int (length buf)
      then Inr (le32 buf (nat off))
      else Inl RangeError)"

text \<open>\<^verbatim>\<open>buf.subarray(start, end)\<close>: indices are clamped to the buffer, a negative
  index counts from the end.\<close>

definition subarray :: "buffer \<Rightarrow> int \<Rightarrow> int \<Rightarrow> buffer" where
  "subarray buf start end =
     (let n = int (length buf);
          s = (if start < 0 then max 0 (n + start) else min start n);
          e = (if end < 0 then max 0 (n + end) else min end n)
      in take (nat (e - s)) (drop (nat s) buf))"

definition hexDigit :: "nat \<Rightarrow> char" where
  "hexDigit n = ''0123456789abcdef'' ! n"

text \<open>\<^verbatim>\<open>buf.toString("hex")\<close>: two lower-case digits per byte, in buffer order.\<close>

definition hexByte :: "byte \<Rightarrow> string" where
  "hexByte b = [hexDigit (unat b div 16), hexDigit (unat b mod 16)]"

definition toStringHex :: "buffer \<Rightarrow> string" where
  "toStringHex buf = concat (map hexByte buf)"

text \<open>\<^verbatim>\<open>n.toString(16)\<close> and \<^verbatim>\<open>n.toString()\<close> of a non-negative integer: no leading
  zeros.\<close>

fun toString16 :: "nat \<Rightarrow> string" where
  "toString16 n =
     (if n < 16 then [hexDigit n] else toString16 (n div 16) @ [hexDigit (n mod 16)])"

fun toString10 :: "nat \<Rightarrow> string" where
  "toString10 n =
     (if n < 10 then [hexDigit n] else toString10 (n div 10) @ [hexDigit (n mod 10)])"

declare toString16.simps [simp del]
declare toString10.simps [simp del]

definition padStart :: "nat \<Rightarrow> char \<Rightarrow> string \<Rightarrow> string" where
  "padStart k c s = replicate (k - length s) c @ s"

text \<open>\<^verbatim>\<open>buf.toString("ascii", start, end)\<close>: the high bit of each byte is dropped.\<close>

definition toStringAscii :: "buffer \<Rightarrow> nat \<Rightarrow> nat \<Rightarrow> string" where
  "toStringAscii buf start end =
     map (\<lambda>b. char_of (unat b mod 128)) (take (end - start) (drop start buf))"

subsection \<open>JavaScript numbers: IEEE-754 binary64 arithmetic\<close>

text \<open>
  JavaScript numbers are doubles.  A double is modelled by the rational it denotes, and
  every arithmetic operation rounds the exact result to 53 significant bits, ties to
  even.  This is the IEEE-754 result for every magnitude in the normal range of the
  format (from \<open>2 ^ -1022\<close> up to \<open>2 ^ 1024\<close>), which covers all values the timestamp
  conversion produces: they are zero or lie between \<open>1 / 10000\<close> and \<open>2 ^ 65\<close>.
\<close>

fun bits :: "nat \<Rightarrow> nat" where
  "bits n = (if n = 0 then 0 else Suc (bits (n div 2)))"

declare bits.simps [simp del]

definition pow2 :: "int \<Rightarrow> rat" where
  "pow2 e = (if 0 \<le> e then 2 ^ nat e else 1 / 2 ^ nat (- e))"

text \<open>The binary exponent of a positive rational: the largest \<open>e\<close> with \<open>2 ^ e \<le> a\<close>.\<close>

definition ilog2 :: "rat \<Rightarrow> int" where
  "ilog2 a =
     (if 1 \<le> a then int (bits (nat \<lfloor>a\<rfloor>)) - 1
      else - int (bits (nat (\<lceil>1 / a\<rceil> - 1))))"

definition roundHalfEven :: "rat \<Rightarrow> int" where
  "roundHalfEven x =
     (let f = \<lfloor>x\<rfloor>; d = x - of_int f
      in if d < 1 / 2 then f
         else if 1 / 2 < d then f + 1
         else if even f then f else f + 1)"

definition fl :: "rat \<Rightarrow> rat" where
  "fl x =
     (if x = 0 then 0
      else let a = \<bar>x\<bar>; u = pow2 (ilog2 a - 52)
           in sgn x * of_int (roundHalfEven (a / u)) * u)"

definition dmul :: "rat \<Rightarrow> rat \<Rightarrow> rat" where "dmul a b = fl (a * b)"
definition dadd :: "rat \<Rightarrow> rat \<Rightarrow> rat" where "dadd a b = fl (a + b)"
definition ddiv :: "rat \<Rightarrow> rat \<Rightarrow> rat" where "ddiv a b = fl (a / b)"
definition dsub :: "rat \<Rightarrow> rat \<Rightarrow> rat" where "dsub a b = fl (a - b)"

text \<open>\<^verbatim>\<open>new Date(ms)\<close> clips the time value: beyond 8.64e15 ms the date is invalid,
  otherwise the fraction is dropped (truncation towards zero).\<close>

datatype date = Date int | InvalidDate

definition toInteger :: "rat \<Rightarrow> int" where
  "toInteger x = (if 0 \<le> x then \<lfloor>x\<rfloor> else \<lceil>x\<rceil>)"

definition newDate :: "rat \<Rightarrow> date" where
  "newDate ms = (if 8640000000000000 < \<bar>ms\<bar> then InvalidDate else Date (toInteger ms))"

section \<open>eventlogger-constants.js\<close>

definition SEVERITY_STR :: "nat \<rightharpoonup> string" where
  "SEVERITY_STR =
     [0 \<mapsto> ''Verbose'', 1 \<mapsto> ''Info'', 2 \<mapsto> ''Warning'', 3 \<mapsto> ''Error'', 4 \<mapsto> ''Critical'']"

definition ALARM_STATE_RAISED :: nat where "ALARM_STATE_RAISED = 1"
definition ALARM_STATE_CLEARED :: nat where "ALARM_STATE_CLEARED = 0"

definition parseGuid :: "buffer \<Rightarrow> int \<Rightarrow> js_error + string option" where
  "parseGuid buf off =
     (if int (length buf) < off + 16 then Inr None
      else
        bind_res (readUInt32LE buf off) (\<lambda>d1.
        bind_res (readUInt16LE buf (off + 4)) (\<lambda>d2.
        bind_res (readUInt16LE buf (off + 6)) (\<lambda>d3.
          let data1 = padStart 8 (CHR ''0'') (toString16 d1);
              data2 = padStart 4 (CHR ''0'') (toString16 d2);
              data3 = padStart 4 (CHR ''0'') (toString16 d3);
              data4High = toStringHex (subarray buf (off + 8) (off + 10));
              data4Low = toStringHex (subarray buf (off + 10) (off + 16))
          in Inr (Some (data1 @ ''-'' @ data2 @ ''-'' @ data3 @ ''-'' @ data4High
                         @ ''-'' @ data4Low))))))"

text \<open>A Windows FILETIME (100 ns ticks since 1601) as two little-endian words.\<close>

definition parseFileTime :: "buffer \<Rightarrow> int \<Rightarrow> js_error + date option" where
  "parseFileTime buf off =
     (if int (length buf) < off + 8 then Inr None
      else
        bind_res (readUInt32LE buf off) (\<lambda>low.
        bind_res (readUInt32LE buf (off + 4)) (\<lambda>high.
          if low = 0 \<and> high = 0 then Inr None
          else
            let fileTimeMs = ddiv (dadd (dmul (of_nat high) 4294967296) (of_nat low)) 10000;
                unixMs = dsub fileTimeMs 11644473600000
            in Inr (Some (newDate unixMs)))))"

text \<open>The double-precision computation of \<^verbatim>\<open>parseFileTime\<close> on the two words, and the
  value it returns at an index where eight bytes are available; both are named for
  the statements below.\<close>

definition unixMs :: "nat \<Rightarrow> nat \<Rightarrow> rat" where
  "unixMs low high =
     dsub (ddiv (dadd (dmul (of_nat high) 4294967296) (of_nat low)) 10000) 11644473600000"

definition fileTimeAt :: "buffer \<Rightarrow> nat \<Rightarrow> date option" where
  "fileTimeAt buf i =
     (if le32 buf i = 0 \<and> le32 buf (i + 4) = 0 then None
      else Some (newDate (unixMs (le32 buf i) (le32 buf (i + 4)))))"

text \<open>The millisecond value the specification asks for: the exact integer computation
  on the 64-bit tick count.\<close>

definition exactUnixMs :: "nat \<Rightarrow> nat \<Rightarrow> int" where
  "exactUnixMs low high = int ((high * 2 ^ 32 + low) div 10000) - 11644473600000"

section \<open>ads-eventlogger-subscribe.js: the decoder\<close>

definition MIN_EVENT_SIZE :: nat where "MIN_EVENT_SIZE = 84"
definition HEARTBEAT_SIZE :: nat where "HEARTBEAT_SIZE = 16"

record entry =
  version :: nat
  messageType :: nat
  payloadSize :: nat
  eventClass :: "string option"
  eventId :: nat
  severityRaw :: nat
  severityLevel :: nat
  severity :: string
  eventKind :: nat
  isAlarm :: bool
  alarmState :: string
  alarmStateValue :: nat
  timeRaised :: "date option"
  timeCleared :: "date option"
  timeConfirmed :: "date option"
  sourceName :: string
  message :: string

text \<open>The scanning loop of \<^verbatim>\<open>findAsciiStrings\<close>: \<open>start\<close> is \<open>-1\<close> outside a run.\<close>

function findAsciiStrings_loop ::
  "buffer \<Rightarrow> nat \<Rightarrow> int \<Rightarrow> (nat \<times> string) list \<Rightarrow> int \<times> (nat \<times> string) list" where
  "findAsciiStrings_loop buf i start strings =
     (if i < length buf then
        (if 32 \<le> unat (buf ! i) \<and> unat (buf ! i) < 127
         then findAsciiStrings_loop buf (i + 1) (if start = - 1 then int i else start) strings
         else findAsciiStrings_loop buf (i + 1) (- 1)
                (if start \<noteq> - 1 \<and> 3 \<le> int i - start
                 then strings @ [(nat start, toStringAscii buf (nat start) i)]
                 else strings))
      else (start, strings))"
  by pat_completeness auto
termination
  by (relation "measure (\<lambda>(buf, i, start, strings). length buf - i)") auto

declare findAsciiStrings_loop.simps [simp del]

definition findAsciiStrings :: "buffer \<Rightarrow> nat \<Rightarrow> (nat \<times> string) list" where
  "findAsciiStrings buf startOffset =
     (case findAsciiStrings_loop buf startOffset (- 1) [] of
        (start, strings) \<Rightarrow>
          if start \<noteq> - 1 \<and> 3 \<le> int (length buf) - start
          then strings @ [(nat start, toStringAscii buf (nat start) (length buf))]
          else strings)"

text \<open>What a subscribe node does to the outside: warnings, errors and sent messages.\<close>

record payload =
  p_eventClass :: "string option"
  p_eventId :: nat
  p_severity :: string
  p_severityLevel :: nat
  p_timeRaised :: "date option"
  p_timeCleared :: "date option"
  p_timeConfirmed :: "date option"
  p_alarmState :: string
  p_isAlarm :: bool
  p_sourceName :: string
  p_message :: string

datatype node_effect =
    Warn_too_short "nat option"
  | Send string payload
  | Error_processing js_error

text \<open>The argument of the handlers is any JavaScript value; only buffers are decoded.\<close>

datatype jsvalue = Buffer buffer | NotBuffer

text \<open>The body of \<^verbatim>\<open>parseEventEntry\<close> after its length guard: the fixed layout.\<close>

definition parseEventEntry_body :: "buffer \<Rightarrow> js_error + entry option" where
  "parseEventEntry_body data =
     bind_res (readUInt32LE data 0) (\<lambda>version'.
     bind_res (readUInt16LE data 4) (\<lambda>messageType'.
     bind_res (readUInt32LE data 8) (\<lambda>payloadSize'.
     bind_res (parseGuid data 12) (\<lambda>eventClass'.
     bind_res (readUInt32LE data 28) (\<lambda>eventId'.
     bind_res (readUInt8 data 36) (\<lambda>severityRaw'.
     bind_res (readUInt32LE data 40) (\<lambda>eventKind'.
     bind_res (readUInt8 data 52) (\<lambda>raisedFlag.
     bind_res (parseFileTime data 60) (\<lambda>timeRaised'.
     bind_res (parseFileTime data 68) (\<lambda>timeCleared'.
     bind_res (parseFileTime data 76) (\<lambda>timeConfirmed'.
       let strings = (if 128 < length data then findAsciiStrings data 128 else [])
       in Inr (Some \<lparr>
            version = version',
            messageType = messageType',
            payloadSize = payloadSize',
            eventClass = eventClass',
            eventId = eventId',
            severityRaw = severityRaw',
            severityLevel = (if severityRaw' \<le> 4 then severityRaw' else 0),
            severity =
              (if severityRaw' \<le> 4
               then (case SEVERITY_STR severityRaw' of
                       Some s \<Rightarrow> s
                     | None \<Rightarrow> ''Unknown('' @ toString10 severityRaw' @ '')'')
               else ''Verbose''),
            eventKind = eventKind',
            isAlarm = (eventKind' = 2),
            alarmState = (if raisedFlag = 1 then ''Raised'' else ''Cleared''),
            alarmStateValue =
              (if raisedFlag = 1 then ALARM_STATE_RAISED else ALARM_STATE_CLEARED),
            timeRaised = timeRaised',
            timeCleared = timeCleared',
            timeConfirmed = timeConfirmed',
            sourceName = (if 1 \<le> length strings then snd (strings ! 0) else []),
            message = (if 2 \<le> length strings then snd (strings ! 1) else [])
          \<rparr>))))))))))))"

text \<open>\<^verbatim>\<open>parseEventEntry\<close>: the length guard warns and returns null; otherwise the
  fixed layout is read.  The result is the warnings issued and the value returned
  (or the error thrown).\<close>

definition parseEventEntry :: "jsvalue \<Rightarrow> node_effect list \<times> (js_error + entry option)" where
  "parseEventEntry v =
     (case v of
        NotBuffer \<Rightarrow> ([Warn_too_short None], Inr None)
      | Buffer data \<Rightarrow>
          if length data < MIN_EVENT_SIZE
          then ([Warn_too_short (Some (length data))], Inr None)
          else ([], parseEventEntry_body data))"


definition sendEvent :: "int \<Rightarrow> entry \<Rightarrow> node_effect list" where
  "sendEvent minSeverity e =
     (if int (severityLevel e) < minSeverity then []
      else [Send ''eventlogger'' \<lparr>
              p_eventClass = eventClass e,
              p_eventId = eventId e,
              p_severity = severity e,
              p_severityLevel = severityLevel e,
              p_timeRaised = timeRaised e,
              p_timeCleared = timeCleared e,
              p_timeConfirmed = timeConfirmed e,
              p_alarmState = alarmState e,
              p_isAlarm = isAlarm e,
              p_sourceName = sourceName e,
              p_message = message e \<rparr>])"

definition onEventData :: "int \<Rightarrow> jsvalue \<Rightarrow> node_effect list" where
  "onEventData minSeverity v =
     (case v of
        NotBuffer \<Rightarrow> []
      | Buffer buffer \<Rightarrow>
          if length buffer = 0 then []
          else if length buffer \<le> HEARTBEAT_SIZE then []
          else (case parseEventEntry (Buffer buffer) of
                  (ws, Inl err) \<Rightarrow> ws @ [Error_processing err]
                | (ws, Inr None) \<Rightarrow> ws
                | (ws, Inr (Some e)) \<Rightarrow> ws @ sendEvent minSeverity e))"





text \<open>A fixed-width hexadecimal rendering, used to state what the GUID groups are.\<close>

fun hexFixed :: "nat \<Rightarrow> nat \<Rightarrow> string" where
  "hexFixed 0 n = []"
| "hexFixed (Suc k) n = hexFixed k (n div 16) @ [hexDigit (n mod 16)]"

section \<open>ads-eventlogger-connection.js: the shared subscription\<close>

text \<open>
  JavaScript runs each synchronous stretch of code to completion; an \<^verbatim>\<open>async\<close> function
  is suspended at an \<^verbatim>\<open>await\<close> and resumed by a later task.  The connection node is
  therefore a state machine whose atomic steps are: a call of \<^verbatim>\<open>addSubscriber\<close> or
  \<^verbatim>\<open>removeSubscriber\<close> up to its first suspension, a connected or disconnected signal
  handled by \<^verbatim>\<open>onConnectedStateChange\<close>, and the resumption of a suspended function when
  the transport settles a pending \<^verbatim>\<open>subscribeRaw\<close> or \<^verbatim>\<open>unsubscribe\<close>.  Any interleaving
  of these steps is a possible execution.

  The transport (ads-client) is not part of the repository.  Its calls are recorded in
  the trace of effects, its answers arrive as events, and the flag
  \<^verbatim>\<open>adsClient.connection.connected\<close> it maintains is changed by an event of its own.
  Its \<^verbatim>\<open>subscribeRaw\<close> and \<^verbatim>\<open>unsubscribe\<close> are asynchronous functions: each call returns
  a promise that is fulfilled or rejected by a later task.
\<close>

type_synonym handle = nat
type_synonym promise = nat

datatype caller = AddSubscriberCall | RemoveSubscriberCall | Resubscribe

datatype conn_effect =
    Emit_connected bool
  | SubscribeRaw promise
  | Unsubscribe handle
  | Log_subscription_active
  | Log_subscription_removed
  | Warn_subscribe_failed
  | Warn_unsubscribe_failed
  | Warn_resubscribe_failed
  | Awaits caller promise
  | Settled caller bool

text \<open>
  The fields \<open>this_\<dots>\<close> are the fields of the node.  \<open>client_connected\<close> is the transport's
  flag, \<open>awaiting\<close> the callers suspended on the subscribe attempt in flight,
  \<open>pending_unsubscribes\<close> the number of \<^verbatim>\<open>unsubscribe\<close> calls not yet settled,
  \<open>next_promise\<close> the identity of the next promise, and \<open>effects\<close> the trace.
\<close>

record conn =
  this_connected :: bool
  this_firstConnectedEventSent :: bool
  this_subscription :: "handle option"
  this_subscriberCount :: int
  this_subscribing :: "promise option"
  this_adsClient :: bool
  client_connected :: bool
  awaiting :: "caller list"
  pending_unsubscribes :: nat
  next_promise :: promise
  effects :: "conn_effect list"

definition initial :: conn where
  "initial = \<lparr>
     this_connected = False,
     this_firstConnectedEventSent = False,
     this_subscription = None,
     this_subscriberCount = 0,
     this_subscribing = None,
     this_adsClient = False,
     client_connected = False,
     awaiting = [],
     pending_unsubscribes = 0,
     next_promise = 0,
     effects = [] \<rparr>"

definition emit :: "conn_effect \<Rightarrow> conn \<Rightarrow> conn" where
  "emit x s = s\<lparr>effects := effects s @ [x]\<rparr>"

definition isConnected :: "conn \<Rightarrow> bool" where
  "isConnected s \<longleftrightarrow> this_adsClient s \<and> client_connected s"

text \<open>What the caller of an asynchronous function gets at its first suspension.\<close>

datatype wait = Returned | Pending promise

text \<open>\<^verbatim>\<open>_subscribe\<close> up to the \<^verbatim>\<open>await\<close> on \<^verbatim>\<open>subscribeRaw\<close>: the call to the transport is
  made inside the immediately invoked function, whose promise is stored afterwards.\<close>

definition internal_subscribe :: "conn \<Rightarrow> wait \<times> conn" where
  "internal_subscribe s =
     (if this_subscription s \<noteq> None then (Returned, s)
      else case this_subscribing s of
             Some p \<Rightarrow> (Pending p, s)
           | None \<Rightarrow>
               let p = next_promise s
               in (Pending p,
                   (emit (SubscribeRaw p) s)\<lparr>this_subscribing := Some p, next_promise := p + 1\<rparr>))"

definition addSubscriber :: "conn \<Rightarrow> conn" where
  "addSubscriber s =
     (let s1 = s\<lparr>this_subscriberCount := this_subscriberCount s + 1\<rparr>
      in if this_subscription s1 \<noteq> None then emit (Settled AddSubscriberCall True) s1
         else if \<not> this_adsClient s1 \<or> \<not> isConnected s1
         then emit (Settled AddSubscriberCall True) s1
         else case internal_subscribe s1 of
                (Returned, s2) \<Rightarrow> emit (Settled AddSubscriberCall True) s2
              | (Pending p, s2) \<Rightarrow>
                  (emit (Awaits AddSubscriberCall p) s2)
                    \<lparr>awaiting := awaiting s2 @ [AddSubscriberCall]\<rparr>)"

text \<open>\<^verbatim>\<open>_unsubscribe\<close> up to the \<^verbatim>\<open>await\<close> on the transport's \<^verbatim>\<open>unsubscribe\<close>; the
  boolean tells whether the function is suspended there.\<close>

definition internal_unsubscribe :: "conn \<Rightarrow> bool \<times> conn" where
  "internal_unsubscribe s =
     (case this_subscription s of
        None \<Rightarrow> (False, s)
      | Some h \<Rightarrow>
          (True, (emit (Unsubscribe h) s)\<lparr>pending_unsubscribes := pending_unsubscribes s + 1\<rparr>))"

definition removeSubscriber :: "conn \<Rightarrow> conn" where
  "removeSubscriber s =
     (let s1 = s\<lparr>this_subscriberCount := max 0 (this_subscriberCount s - 1)\<rparr>
      in if this_subscriberCount s1 = 0 \<and> this_subscription s1 \<noteq> None
         then (case internal_unsubscribe s1 of
                 (True, s2) \<Rightarrow> s2
               | (False, s2) \<Rightarrow> emit (Settled RemoveSubscriberCall True) s2)
         else emit (Settled RemoveSubscriberCall True) s1)"

text \<open>The listeners of the \<^verbatim>\<open>connected\<close> event are the subscribe nodes; each of them
  calls \<^verbatim>\<open>addSubscriber\<close> synchronously when the reported state is true.\<close>

fun listeners :: "nat \<Rightarrow> conn \<Rightarrow> conn" where
  "listeners 0 s = s"
| "listeners (Suc n) s = listeners n (addSubscriber s)"

text \<open>\<^verbatim>\<open>onConnectedStateChange\<close> has two blocks.  The first notifies the observers when
  the state changes or nothing was sent yet; the listeners run inside the \<^verbatim>\<open>emit\<close>.\<close>

definition announce :: "bool \<Rightarrow> nat \<Rightarrow> conn \<Rightarrow> conn" where
  "announce c n s =
     (if this_connected s \<noteq> c \<or> \<not> this_firstConnectedEventSent s
      then (let s0 = emit (Emit_connected c) s in if c then listeners n s0 else s0)
      else s)"

text \<open>The second block, on a connected signal: subscribe again when subscribers are
  registered and no subscription exists.  A failure of the attempt is caught and logged.\<close>

definition resubscribe :: "conn \<Rightarrow> conn" where
  "resubscribe s =
     (if 0 < this_subscriberCount s \<and> this_subscription s = None
      then (case internal_subscribe s of
              (Returned, s3) \<Rightarrow> s3
            | (Pending p, s3) \<Rightarrow>
                (emit (Awaits Resubscribe p) s3)\<lparr>awaiting := awaiting s3 @ [Resubscribe]\<rparr>)
      else s)"

definition onConnectedStateChange :: "bool \<Rightarrow> nat \<Rightarrow> conn \<Rightarrow> conn" where
  "onConnectedStateChange c n s =
     (let s1 = announce c n s;
          s2 = s1\<lparr>this_connected := c, this_firstConnectedEventSent := True\<rparr>
      in if c then resubscribe s2 else s2\<lparr>this_subscription := None\<rparr>)"

text \<open>The callers suspended on a subscribe attempt resume when it settles: a call of
  \<^verbatim>\<open>addSubscriber\<close> completes or fails with it, the re-subscription after a reconnect
  logs a warning when it fails.\<close>

fun resume :: "bool \<Rightarrow> caller list \<Rightarrow> conn_effect list" where
  "resume ok [] = []"
| "resume ok (Resubscribe # cs) = (if ok then [] else [Warn_resubscribe_failed]) @ resume ok cs"
| "resume ok (c # cs) = Settled c ok # resume ok cs"

text \<open>The rest of \<^verbatim>\<open>_subscribe\<close>, run when the pending \<^verbatim>\<open>subscribeRaw\<close> is fulfilled with a
  handle or rejected (\<open>None\<close>).\<close>

definition subscribe_settled :: "handle option \<Rightarrow> conn \<Rightarrow> conn" where
  "subscribe_settled r s =
     (case this_subscribing s of
        None \<Rightarrow> s
      | Some p \<Rightarrow>
          let s1 = (case r of
                      Some h \<Rightarrow> emit Log_subscription_active (s\<lparr>this_subscription := Some h\<rparr>)
                    | None \<Rightarrow> emit Warn_subscribe_failed (s\<lparr>this_subscription := None\<rparr>));
              s2 = s1\<lparr>this_subscribing := None\<rparr>
          in s2\<lparr>effects := effects s2 @ resume (r \<noteq> None) (awaiting s2), awaiting := []\<rparr>)"

text \<open>The rest of \<^verbatim>\<open>_unsubscribe\<close> and of the \<^verbatim>\<open>removeSubscriber\<close> that awaits it, run
  when the pending \<^verbatim>\<open>unsubscribe\<close> is fulfilled (\<open>True\<close>) or rejected.\<close>

definition unsubscribe_settled :: "bool \<Rightarrow> conn \<Rightarrow> conn" where
  "unsubscribe_settled ok s =
     (if pending_unsubscribes s = 0 then s
      else
        let s1 = emit (if ok then Log_subscription_removed else Warn_unsubscribe_failed) s;
            s2 = s1\<lparr>this_subscription := None,
                    pending_unsubscribes := pending_unsubscribes s1 - 1\<rparr>
        in emit (Settled RemoveSubscriberCall True) s2)"

datatype event =
    AddSubscriber
  | RemoveSubscriber
  | ConnectedSignal bool nat
  | SubscribeSettled "handle option"
  | UnsubscribeSettled bool
  | ClientChanged bool bool

fun step :: "event \<Rightarrow> conn \<Rightarrow> conn" where
  "step AddSubscriber s = addSubscriber s"
| "step RemoveSubscriber s = removeSubscriber s"
| "step (ConnectedSignal c n) s = onConnectedStateChange c n s"
| "step (SubscribeSettled r) s = subscribe_settled r s"
| "step (UnsubscribeSettled ok) s = unsubscribe_settled ok s"
| "step (ClientChanged client flag) s = s\<lparr>this_adsClient := client, client_connected := flag\<rparr>"

fun run :: "event list \<Rightarrow> conn \<Rightarrow> conn" where
  "run [] s = s"
| "run (e # es) s = run es (step e s)"

text \<open>Observations on a trace: the calls of \<^verbatim>\<open>subscribeRaw\<close>, the promises awaited,
  the \<^verbatim>\<open>connected\<close> notifications, and the signals in a sequence of events.\<close>

definition subscribeRawCalls :: "conn_effect list \<Rightarrow> promise list" where
  "subscribeRawCalls effs =
     concat (map (\<lambda>x. case x of SubscribeRaw p \<Rightarrow> [p] | _ \<Rightarrow> []) effs)"

definition awaited :: "conn_effect list \<Rightarrow> promise list" where
  "awaited effs = concat (map (\<lambda>x. case x of Awaits c p \<Rightarrow> [p] | _ \<Rightarrow> []) effs)"

definition emitted :: "conn_effect list \<Rightarrow> bool list" where
  "emitted effs = concat (map (\<lambda>x. case x of Emit_connected b \<Rightarrow> [b] | _ \<Rightarrow> []) effs)"

definition signals :: "event list \<Rightarrow> bool list" where
  "signals es = concat (map (\<lambda>e. case e of ConnectedSignal b n \<Rightarrow> [b] | _ \<Rightarrow> []) es)"


text \<open>What an observer of the \<^verbatim>\<open>connected\<close> event can tell of a state.\<close>

definition flags :: "conn \<Rightarrow> bool \<times> bool \<times> bool list" where
  "flags s = (this_connected s, this_firstConnectedEventSent s, emitted (effects s))"

text \<open>Three kinds of stretches of a trace: no call of \<^verbatim>\<open>subscribeRaw\<close> and nobody
  waiting; no call and everybody waiting for \<open>p\<close>; exactly the call that created \<open>p\<close>
  and everybody waiting for \<open>p\<close>.\<close>

definition silent :: "conn_effect list \<Rightarrow> bool" where
  "silent xs \<longleftrightarrow> subscribeRawCalls xs = [] \<and> awaited xs = []"






text \<open>No call of \<^verbatim>\<open>removeSubscriber\<close> has failed, and none is waiting for a subscribe
  attempt.\<close>

definition no_failed_remove :: "conn \<Rightarrow> bool" where
  "no_failed_remove s \<longleftrightarrow>
     RemoveSubscriberCall \<notin> set (awaiting s)
     \<and> Settled RemoveSubscriberCall False \<notin> set (effects s)"

section \<open>Properties of the GUID decoder\<close>

lemma hexFixed_zero: "hexFixed k 0 = replicate k (hexDigit 0)"
  by (induction k) (simp_all add: replicate_append_same)

lemma length_toString16: "n < 16 ^ k \<Longrightarrow> 0 < k \<Longrightarrow> length (toString16 n) \<le> k"
proof (induction k arbitrary: n)
  case 0
  then show ?case by simp
next
  case (Suc k)
  show ?case
  proof (cases "n < 16")
    case True
    then show ?thesis by (simp add: toString16.simps [of n])
  next
    case False
    with Suc.prems have k: "0 < k" by (cases k) auto
    from Suc.prems have "n div 16 < 16 ^ k"
      by (simp add: less_mult_imp_div_less mult.commute)
    with Suc.IH k have "length (toString16 (n div 16)) \<le> k" by blast
    with False show ?thesis by (simp add: toString16.simps [of n])
  qed
qed

lemma padStart_toString16:
  "n < 16 ^ k \<Longrightarrow> 0 < k \<Longrightarrow> padStart k (CHR ''0'') (toString16 n) = hexFixed k n"
proof (induction k arbitrary: n)
  case 0
  then show ?case by simp
next
  case (Suc k)
  show ?case
  proof (cases "n < 16")
    case True
    then have "n div 16 = 0" by simp
    with True show ?thesis
      by (simp add: toString16.simps [of n] padStart_def hexFixed_zero hexDigit_def)
  next
    case False
    with Suc.prems have k: "0 < k" by (cases k) auto
    from Suc.prems have d: "n div 16 < 16 ^ k"
      by (simp add: less_mult_imp_div_less mult.commute)
    from Suc.IH [OF d k] False show ?thesis
      by (simp add: toString16.simps [of n] padStart_def)
  qed
qed

lemma hexFixed_byte:
  "a < 256 \<Longrightarrow> hexFixed (Suc (Suc k)) (a + 256 * r)
     = hexFixed k r @ [hexDigit (a div 16), hexDigit (a mod 16)]"
proof -
  assume a: "a < 256"
  have m: "(a + 256 * r) mod 16 = a mod 16"
    by (simp add: mod_mult_right_eq [of 16 16 "16 * r"]
        mod_add_right_eq [symmetric, of a "256 * r" 16] flip: mult.assoc)
  have d: "(a + 256 * r) div 16 = a div 16 + 16 * r"
    by simp
  have a16: "a div 16 < 16" using a by simp
  have d2: "(a div 16 + 16 * r) div 16 = r" "(a div 16 + 16 * r) mod 16 = a div 16"
    using a16 by simp_all
  show ?thesis
    by (simp only: hexFixed.simps m d d2) simp
qed

lemma hexFixed_hexByte: "hexFixed 2 (unat (b::byte)) = hexByte b"
proof -
  have "unat b < 256" using unsigned_less [of b] by simp
  then have "hexFixed (Suc (Suc 0)) (unat b + 256 * 0) = hexFixed 0 0 @ hexByte b"
    unfolding hexByte_def by (rule hexFixed_byte)
  then show ?thesis by (simp add: numeral_2_eq_2)
qed

lemma hexFixed_unfold4: "hexFixed 4 n = hexFixed (Suc (Suc 2)) n"
proof -
  have "(4::nat) = Suc (Suc 2)" by simp
  then show ?thesis by (simp only:)
qed

lemma hexFixed_unfold6: "hexFixed 6 n = hexFixed (Suc (Suc 4)) n"
proof -
  have "(6::nat) = Suc (Suc 4)" by simp
  then show ?thesis by (simp only:)
qed

lemma hexFixed_unfold8: "hexFixed 8 n = hexFixed (Suc (Suc 6)) n"
proof -
  have "(8::nat) = Suc (Suc 6)" by simp
  then show ?thesis by (simp only:)
qed

lemma unat_byte_less: "unat (b::byte) < 256"
  using unsigned_less [of b] by simp

lemma hex_bytes16:
  "padStart 4 (CHR ''0'') (toString16 (unat (b0::byte) + 256 * unat (b1::byte)))
     = hexByte b1 @ hexByte b0"
proof -
  let ?n = "unat b0 + 256 * unat b1"
  have lt: "?n < 16 ^ 4"
    using unat_byte_less [of b0] unat_byte_less [of b1] by simp
  have "padStart 4 (CHR ''0'') (toString16 ?n) = hexFixed 4 ?n"
    using lt by (rule padStart_toString16) simp
  also have "hexFixed 4 ?n = hexFixed (Suc (Suc 2)) ?n"
    by (rule hexFixed_unfold4)
  also have "\<dots> = hexFixed 2 (unat b1) @ hexByte b0"
    unfolding hexByte_def by (rule hexFixed_byte) (rule unat_byte_less)
  finally show ?thesis by (simp add: hexFixed_hexByte)
qed

lemma hex_bytes32:
  "padStart 8 (CHR ''0'') (toString16 (unat (b0::byte) + 256 * unat (b1::byte)
        + 65536 * unat (b2::byte) + 16777216 * unat (b3::byte)))
     = hexByte b3 @ hexByte b2 @ hexByte b1 @ hexByte b0"
proof -
  let ?r2 = "unat b2 + 256 * unat b3"
  let ?r1 = "unat b1 + 256 * ?r2"
  let ?n = "unat b0 + 256 * ?r1"
  have n: "unat b0 + 256 * unat b1 + 65536 * unat b2 + 16777216 * unat b3 = ?n"
    by simp
  have lt: "?n < 16 ^ 8"
    using unat_byte_less [of b0] unat_byte_less [of b1]
      unat_byte_less [of b2] unat_byte_less [of b3] by simp
  have "padStart 8 (CHR ''0'') (toString16 ?n) = hexFixed 8 ?n"
    using lt by (rule padStart_toString16) simp
  also have "hexFixed 8 ?n = hexFixed (Suc (Suc 6)) ?n"
    by (rule hexFixed_unfold8)
  also have "\<dots> = hexFixed 6 ?r1 @ hexByte b0"
    unfolding hexByte_def by (rule hexFixed_byte) (rule unat_byte_less)
  also have "hexFixed 6 ?r1 = hexFixed (Suc (Suc 4)) ?r1"
    by (rule hexFixed_unfold6)
  also have "\<dots> = hexFixed 4 ?r2 @ hexByte b1"
    unfolding hexByte_def by (rule hexFixed_byte) (rule unat_byte_less)
  also have "hexFixed 4 ?r2 = hexFixed (Suc (Suc 2)) ?r2"
    by (rule hexFixed_unfold4)
  also have "\<dots> = hexFixed 2 (unat b3) @ hexByte b2"
    unfolding hexByte_def by (rule hexFixed_byte) (rule unat_byte_less)
  finally show ?thesis by (simp add: hexFixed_hexByte n)
qed

lemma take_drop_nth:
  "i < length xs \<Longrightarrow> take (Suc n) (drop i xs) = xs ! i # take n (drop (Suc i) xs)"
  by (simp add: Cons_nth_drop_Suc [symmetric])

lemma slice2: "i + 2 \<le> length xs \<Longrightarrow> take 2 (drop i xs) = [xs ! i, xs ! (i + 1)]"
proof -
  assume a: "i + 2 \<le> length xs"
  have "take (Suc (Suc 0)) (drop i xs) = [xs ! i, xs ! Suc i]"
    using a by (simp add: take_drop_nth)
  then show ?thesis by (simp add: numeral_2_eq_2)
qed

lemma slice6:
  "i + 6 \<le> length xs \<Longrightarrow>
     take 6 (drop i xs) = [xs ! i, xs ! (i + 1), xs ! (i + 2), xs ! (i + 3), xs ! (i + 4), xs ! (i + 5)]"
proof -
  assume a: "i + 6 \<le> length xs"
  have s: "(6::nat) = Suc (Suc (Suc (Suc (Suc (Suc 0)))))" by simp
  have "take (Suc (Suc (Suc (Suc (Suc (Suc 0)))))) (drop i xs)
      = [xs ! i, xs ! Suc i, xs ! Suc (Suc i), xs ! Suc (Suc (Suc i)),
         xs ! Suc (Suc (Suc (Suc i))), xs ! Suc (Suc (Suc (Suc (Suc i))))]"
    using a by (simp add: take_drop_nth)
  moreover have "Suc i = i + 1" "Suc (Suc i) = i + 2" "Suc (Suc (Suc i)) = i + 3"
    "Suc (Suc (Suc (Suc i))) = i + 4" "Suc (Suc (Suc (Suc (Suc i)))) = i + 5" by simp_all
  ultimately show ?thesis by (simp only: s)
qed

lemma parseGuid_short: "int (length buf) < off + 16 \<Longrightarrow> parseGuid buf off = Inr None"
  by (simp add: parseGuid_def)

lemma parseGuid_groups:
  assumes "0 \<le> off" "off + 16 \<le> int (length buf)"
  shows "parseGuid buf off = Inr (Some (
       hexByte (buf ! (nat off + 3)) @ hexByte (buf ! (nat off + 2))
         @ hexByte (buf ! (nat off + 1)) @ hexByte (buf ! nat off) @ ''-''
       @ hexByte (buf ! (nat off + 5)) @ hexByte (buf ! (nat off + 4)) @ ''-''
       @ hexByte (buf ! (nat off + 7)) @ hexByte (buf ! (nat off + 6)) @ ''-''
       @ toStringHex [buf ! (nat off + 8), buf ! (nat off + 9)] @ ''-''
       @ toStringHex [buf ! (nat off + 10), buf ! (nat off + 11), buf ! (nat off + 12),
                      buf ! (nat off + 13), buf ! (nat off + 14), buf ! (nat off + 15)]))"
proof -
  let ?i = "nat off"
  have len: "?i + 16 \<le> length buf" using assms by linarith
  have r1: "readUInt32LE buf off = Inr (le32 buf ?i)"
    using assms by (simp add: readUInt32LE_def)
  have r2: "readUInt16LE buf (off + 4) = Inr (le16 buf (?i + 4))"
    using assms by (simp add: readUInt16LE_def nat_add_distrib)
  have r3: "readUInt16LE buf (off + 6) = Inr (le16 buf (?i + 6))"
    using assms by (simp add: readUInt16LE_def nat_add_distrib)
  have h1: "padStart 8 (CHR ''0'') (toString16 (le32 buf ?i))
      = hexByte (buf ! (?i + 3)) @ hexByte (buf ! (?i + 2)) @ hexByte (buf ! (?i + 1))
        @ hexByte (buf ! ?i)"
    unfolding le32_def by (rule hex_bytes32)
  have e45: "?i + 4 + 1 = ?i + 5" and e67: "?i + 6 + 1 = ?i + 7" by simp_all
  have h2: "padStart 4 (CHR ''0'') (toString16 (le16 buf (?i + 4)))
      = hexByte (buf ! (?i + 5)) @ hexByte (buf ! (?i + 4))"
    using hex_bytes16 [of "buf ! (?i + 4)" "buf ! (?i + 4 + 1)"]
    unfolding le16_def by (simp only: e45)
  have h3: "padStart 4 (CHR ''0'') (toString16 (le16 buf (?i + 6)))
      = hexByte (buf ! (?i + 7)) @ hexByte (buf ! (?i + 6))"
    using hex_bytes16 [of "buf ! (?i + 6)" "buf ! (?i + 6 + 1)"]
    unfolding le16_def by (simp only: e67)
  have s1: "subarray buf (off + 8) (off + 10) = [buf ! (?i + 8), buf ! (?i + 9)]"
  proof -
    have "subarray buf (off + 8) (off + 10) = take 2 (drop (?i + 8) buf)"
      using assms by (simp add: subarray_def Let_def nat_add_distrib min_def)
    also have "\<dots> = [buf ! (?i + 8), buf ! (?i + 8 + 1)]"
      using len by (intro slice2) simp
    finally have f: "subarray buf (off + 8) (off + 10) = [buf ! (?i + 8), buf ! (?i + 8 + 1)]" .
    have e: "?i + 8 + 1 = ?i + 9" by simp
    from f show ?thesis by (simp only: e)
  qed
  have s2: "subarray buf (off + 10) (off + 16)
      = [buf ! (?i + 10), buf ! (?i + 11), buf ! (?i + 12), buf ! (?i + 13), buf ! (?i + 14), buf ! (?i + 15)]"
  proof -
    have "subarray buf (off + 10) (off + 16) = take 6 (drop (?i + 10) buf)"
      using assms by (simp add: subarray_def Let_def nat_add_distrib min_def)
    also have "\<dots> = [buf ! (?i + 10), buf ! (?i + 10 + 1), buf ! (?i + 10 + 2),
        buf ! (?i + 10 + 3), buf ! (?i + 10 + 4), buf ! (?i + 10 + 5)]"
      using len by (intro slice6) simp
    finally have f: "subarray buf (off + 10) (off + 16) = [buf ! (?i + 10), buf ! (?i + 10 + 1),
        buf ! (?i + 10 + 2), buf ! (?i + 10 + 3), buf ! (?i + 10 + 4), buf ! (?i + 10 + 5)]" .
    have e: "?i + 10 + 1 = ?i + 11" "?i + 10 + 2 = ?i + 12" "?i + 10 + 3 = ?i + 13"
      "?i + 10 + 4 = ?i + 14" "?i + 10 + 5 = ?i + 15" by simp_all
    from f show ?thesis by (simp only: e)
  qed
  have g: "\<not> int (length buf) < off + 16" using assms by simp
  show ?thesis
    unfolding parseGuid_def
    by (simp only: g if_False r1 r2 r3 bind_res_def sum.case Let_def s1 s2 h1 h2 h3
        append_assoc)
qed

section \<open>Double-precision rounding\<close>

lemma bits_upper: "n < 2 ^ bits n"
proof (induction n rule: bits.induct)
  case (1 n)
  show ?case
  proof (cases "n = 0")
    case True
    then show ?thesis by (simp add: bits.simps [of n])
  next
    case False
    with 1 have "n div 2 < 2 ^ bits (n div 2)" by simp
    then have "n < 2 * 2 ^ bits (n div 2)" by linarith
    with False show ?thesis by (simp add: bits.simps [of n])
  qed
qed

lemma bits_lower: "0 < n \<Longrightarrow> 2 ^ (bits n - 1) \<le> n"
proof (induction n rule: bits.induct)
  case (1 n)
  show ?case
  proof (cases "n div 2 = 0")
    case True
    with 1(2) have n: "n = Suc 0" by (simp add: div_eq_0_iff)
    have "bits (Suc 0) = Suc 0" by (simp add: bits.simps [of "Suc 0"] bits.simps [of 0])
    with n show ?thesis by simp
  next
    case False
    with 1 have ih: "2 ^ (bits (n div 2) - 1) \<le> n div 2" by simp
    from False have "0 < bits (n div 2)" by (simp add: bits.simps [of "n div 2"])
    then have "(2::nat) ^ bits (n div 2) = 2 * 2 ^ (bits (n div 2) - 1)"
      by (cases "bits (n div 2)") simp_all
    with ih have "2 ^ bits (n div 2) \<le> n" by linarith
    with 1(2) show ?thesis by (simp add: bits.simps [of n])
  qed
qed

lemma pow2_power_int: "pow2 e = power_int 2 e"
  by (simp add: pow2_def power_int_def field_simps)

lemma pow2_pos: "0 < pow2 e"
  by (simp add: pow2_def)

lemma pow2_add: "pow2 (a + b) = pow2 a * pow2 b"
  by (simp add: pow2_power_int power_int_add)

lemma pow2_nat: "pow2 (int n) = 2 ^ n"
  by (simp add: pow2_def)

lemma pow2_mono: "a \<le> b \<Longrightarrow> pow2 a \<le> pow2 b"
  by (simp add: pow2_power_int power_int_increasing)

lemma pow2_less_cancel: "pow2 a < pow2 b \<Longrightarrow> a < b"
  using pow2_mono [of b a] by (cases "a < b") auto

lemma ilog2_le: "0 < a \<Longrightarrow> pow2 (ilog2 a) \<le> a"
proof (cases "1 \<le> a")
  case True
  then have pos: "0 < nat \<lfloor>a\<rfloor>" by simp
  from bits_lower [OF pos] have "(2::nat) ^ (bits (nat \<lfloor>a\<rfloor>) - 1) \<le> nat \<lfloor>a\<rfloor>" .
  then have "(of_nat (2 ^ (bits (nat \<lfloor>a\<rfloor>) - 1)) :: rat) \<le> of_nat (nat \<lfloor>a\<rfloor>)"
    by (simp only: of_nat_le_iff)
  also have "(of_nat (nat \<lfloor>a\<rfloor>) :: rat) = of_int \<lfloor>a\<rfloor>" using True by simp
  also have "\<dots> \<le> a" by simp
  finally have le: "(2::rat) ^ (bits (nat \<lfloor>a\<rfloor>) - 1) \<le> a" by simp
  from pos have "0 < bits (nat \<lfloor>a\<rfloor>)" by (simp add: bits.simps [of "nat \<lfloor>a\<rfloor>"])
  then have "ilog2 a = int (bits (nat \<lfloor>a\<rfloor>) - 1)" using True by (simp add: ilog2_def)
  with le show ?thesis by (simp add: pow2_nat)
next
  case False
  assume a: "0 < a"
  let ?c = "\<lceil>1 / a\<rceil>"
  let ?b = "bits (nat (?c - 1))"
  from False a have "1 < 1 / a" by simp
  then have c: "2 \<le> ?c" by linarith
  have "nat (?c - 1) < 2 ^ ?b" by (rule bits_upper)
  then have "?c - 1 < 2 ^ ?b" using c by (simp add: nat_less_iff)
  then have "?c \<le> 2 ^ ?b" by simp
  then have "(of_int ?c :: rat) \<le> of_int (2 ^ ?b)" by (simp only: of_int_le_iff)
  then have "(of_int ?c :: rat) \<le> 2 ^ ?b" by simp
  moreover have "1 / a \<le> of_int ?c" by simp
  ultimately have "1 / a \<le> 2 ^ ?b" by linarith
  then have "1 / 2 ^ ?b \<le> a" using a by (simp add: field_simps)
  moreover have "pow2 (ilog2 a) = 1 / 2 ^ ?b"
    using False by (simp add: ilog2_def pow2_def)
  ultimately show ?thesis by simp
qed

lemma roundHalfEven_of_int: "roundHalfEven (of_int m) = m"
  by (simp add: roundHalfEven_def)

lemma roundHalfEven_le_ceiling: "roundHalfEven x \<le> \<lceil>x\<rceil>"
proof (cases "x = of_int \<lfloor>x\<rfloor>")
  case True
  then have "x - of_int \<lfloor>x\<rfloor> = 0" by simp
  then have "roundHalfEven x = \<lfloor>x\<rfloor>" by (simp add: roundHalfEven_def Let_def)
  then show ?thesis by (simp add: floor_le_ceiling)
next
  case False
  then have "\<lceil>x\<rceil> = \<lfloor>x\<rfloor> + 1" by (simp add: ceiling_altdef)
  then show ?thesis by (simp add: roundHalfEven_def Let_def)
qed

lemma roundHalfEven_nonneg: "0 \<le> x \<Longrightarrow> 0 \<le> roundHalfEven x"
  by (simp add: roundHalfEven_def Let_def)

lemma fl_neg: "fl (- x) = - fl x"
  by (simp add: fl_def Let_def)

lemma fl_pos_eq:
  "0 < a \<Longrightarrow> fl a = of_int (roundHalfEven (a / pow2 (ilog2 a - 52))) * pow2 (ilog2 a - 52)"
  by (simp add: fl_def Let_def)

lemma fl_nonneg: "0 \<le> x \<Longrightarrow> 0 \<le> fl x"
proof (cases "x = 0")
  case True
  then show ?thesis by (simp add: fl_def)
next
  case False
  assume "0 \<le> x"
  with False have x: "0 < x" by simp
  have "0 \<le> x / pow2 (ilog2 x - 52)" using x pow2_pos [of "ilog2 x - 52"] by simp
  then have "0 \<le> roundHalfEven (x / pow2 (ilog2 x - 52))" by (rule roundHalfEven_nonneg)
  then show ?thesis using x pow2_pos [of "ilog2 x - 52"] by (simp add: fl_pos_eq)
qed

lemma fl_exact:
  assumes n: "0 < n" "n < 2 ^ 53"
  shows "fl (of_int n * pow2 k) = of_int n * pow2 k"
proof -
  define a :: rat where "a = of_int n * pow2 k"
  define e where "e = ilog2 a"
  define u where "u = pow2 (e - 52)"
  have a: "0 < a" using n pow2_pos [of k] by (simp add: a_def)
  have "pow2 e \<le> a" unfolding e_def using a by (rule ilog2_le)
  also have "a < 2 ^ 53 * pow2 k"
  proof -
    have "(of_int n :: rat) < of_int (2 ^ 53)" using n by (simp only: of_int_less_iff)
    then have "(of_int n :: rat) < 2 ^ 53" by simp
    then show ?thesis using pow2_pos [of k] by (simp add: a_def)
  qed
  also have "(2::rat) ^ 53 * pow2 k = pow2 (53 + k)"
    using pow2_add [of 53 k] pow2_nat [of 53] by simp
  finally have "e < 53 + k" by (rule pow2_less_cancel)
  then have j: "0 \<le> k - e + 52" by simp
  define j where "j = nat (k - e + 52)"
  have "k = e - 52 + int j" using j by (simp add: j_def)
  then have "pow2 k = pow2 (e - 52 + int j)" by simp
  also have "\<dots> = u * 2 ^ j" by (simp only: pow2_add pow2_nat u_def)
  finally have k: "pow2 k = u * 2 ^ j" .
  have u: "0 < u" unfolding u_def by (rule pow2_pos)
  have "a / u = of_int n * 2 ^ j"
    using u by (simp add: a_def k)
  also have "\<dots> = of_int (n * 2 ^ j)" by simp
  finally have q: "a / u = of_int (n * 2 ^ j)" .
  have "fl a = of_int (roundHalfEven (a / u)) * u"
    unfolding u_def e_def using a by (rule fl_pos_eq)
  also have "\<dots> = of_int (n * 2 ^ j) * u"
    by (simp only: q roundHalfEven_of_int)
  also have "\<dots> = of_int n * (u * 2 ^ j)" by simp
  also have "\<dots> = a" by (simp only: k a_def)
  finally show ?thesis by (simp only: a_def)
qed

lemma fl_exact_int:
  assumes "\<bar>z\<bar> < 2 ^ 53"
  shows "fl (of_int z) = of_int z"
proof -
  consider "z = 0" | "0 < z" | "z < 0" by linarith
  then show ?thesis
  proof cases
    case 1
    then show ?thesis by (simp add: fl_def)
  next
    case 2
    with assms have "fl (of_int z * pow2 0) = of_int z * pow2 0" by (intro fl_exact) simp_all
    then show ?thesis by (simp add: pow2_def)
  next
    case 3
    with assms have "fl (of_int (- z) * pow2 0) = of_int (- z) * pow2 0"
      by (intro fl_exact) simp_all
    then have "fl (- of_int z) = - of_int z" by (simp add: pow2_def)
    then show ?thesis by (simp add: fl_neg)
  qed
qed

lemma fl_le_pow2:
  assumes "0 \<le> a" "a \<le> 2 ^ n"
  shows "fl a \<le> 2 ^ n"
proof -
  consider "a = 0" | "a = 2 ^ n" | "0 < a" "a < 2 ^ n" using assms by linarith
  then show ?thesis
  proof cases
    case 1
    then show ?thesis by (simp add: fl_def)
  next
    case 2
    have "fl (of_int 1 * pow2 (int n)) = of_int 1 * pow2 (int n)"
      by (rule fl_exact) simp_all
    with 2 show ?thesis by (simp add: pow2_nat)
  next
    case 3
    define e where "e = ilog2 a"
    define u where "u = pow2 (e - 52)"
    have "pow2 e \<le> a" unfolding e_def using 3(1) by (rule ilog2_le)
    also have "a < pow2 (int n)" using 3(2) by (simp add: pow2_nat)
    finally have "e < int n" by (rule pow2_less_cancel)
    then have j: "0 \<le> int n - e + 52" by simp
    define j where "j = nat (int n - e + 52)"
    have "int n = e - 52 + int j" using j by (simp add: j_def)
    then have "pow2 (int n) = pow2 (e - 52 + int j)" by simp
    also have "\<dots> = u * 2 ^ j" by (simp only: pow2_add pow2_nat u_def)
    finally have k: "pow2 (int n) = u * 2 ^ j" .
    have u: "0 < u" unfolding u_def by (rule pow2_pos)
    have "a / u \<le> pow2 (int n) / u"
      using 3(2) u by (simp add: pow2_nat divide_right_mono)
    also have "\<dots> = of_int (2 ^ j)" using u by (simp add: k)
    finally have "\<lceil>a / u\<rceil> \<le> 2 ^ j" by (simp only: ceiling_le_iff)
    with roundHalfEven_le_ceiling [of "a / u"] have "roundHalfEven (a / u) \<le> 2 ^ j"
      by linarith
    then have "(of_int (roundHalfEven (a / u)) :: rat) \<le> of_int (2 ^ j)"
      by (simp only: of_int_le_iff)
    then have "of_int (roundHalfEven (a / u)) * u \<le> of_int (2 ^ j) * u"
      using u by (simp add: mult_right_mono)
    also have "\<dots> = pow2 (int n)" by (simp add: k)
    finally have "of_int (roundHalfEven (a / u)) * u \<le> 2 ^ n" by (simp add: pow2_nat)
    moreover have "fl a = of_int (roundHalfEven (a / u)) * u"
      unfolding u_def e_def using 3(1) by (rule fl_pos_eq)
    ultimately show ?thesis by simp
  qed
qed

lemma fl_abs_le_pow2:
  assumes "\<bar>x\<bar> \<le> 2 ^ n"
  shows "\<bar>fl x\<bar> \<le> 2 ^ n"
proof (cases "0 \<le> x")
  case True
  with assms have "fl x \<le> 2 ^ n" by (intro fl_le_pow2) simp_all
  moreover have "0 \<le> fl x" using True by (rule fl_nonneg)
  ultimately show ?thesis by simp
next
  case False
  with assms have "fl (- x) \<le> 2 ^ n" by (intro fl_le_pow2) simp_all
  moreover have "0 \<le> fl (- x)" using False by (intro fl_nonneg) simp
  ultimately show ?thesis by (simp add: fl_neg)
qed

lemma le32_less: "le32 buf i < 2 ^ 32"
  using unat_byte_less [of "buf ! i"] unat_byte_less [of "buf ! (i + 1)"]
    unat_byte_less [of "buf ! (i + 2)"] unat_byte_less [of "buf ! (i + 3)"]
  by (simp add: le32_def)

lemma le32_zero_iff:
  "le32 buf i = 0 \<longleftrightarrow> buf ! i = 0 \<and> buf ! (i + 1) = 0 \<and> buf ! (i + 2) = 0 \<and> buf ! (i + 3) = 0"
  by (simp add: le32_def unat_eq_0)

lemma parseFileTime_short: "int (length buf) < off + 8 \<Longrightarrow> parseFileTime buf off = Inr None"
  by (simp add: parseFileTime_def)

lemma parseFileTime_eq:
  assumes "0 \<le> off" "off + 8 \<le> int (length buf)"
  shows "parseFileTime buf off =
     Inr (if le32 buf (nat off) = 0 \<and> le32 buf (nat off + 4) = 0 then None
          else Some (newDate (unixMs (le32 buf (nat off)) (le32 buf (nat off + 4)))))"
proof -
  have r1: "readUInt32LE buf off = Inr (le32 buf (nat off))"
    using assms by (simp add: readUInt32LE_def)
  have r2: "readUInt32LE buf (off + 4) = Inr (le32 buf (nat off + 4))"
    using assms by (simp add: readUInt32LE_def nat_add_distrib)
  have g: "\<not> int (length buf) < off + 8" using assms by simp
  show ?thesis
    unfolding parseFileTime_def unixMs_def
    by (simp only: g if_False r1 r2 bind_res_def sum.case Let_def if_distrib [of Inr])
qed

lemma dmul_high: "high < 2 ^ 32 \<Longrightarrow> dmul (of_nat high) 4294967296 = of_nat (high * 2 ^ 32)"
proof (cases "high = 0")
  case True
  then show ?thesis by (simp add: dmul_def fl_def)
next
  case False
  assume "high < 2 ^ 32"
  then have "int high < 2 ^ 53" by simp
  with False have "fl (of_int (int high) * pow2 32) = of_int (int high) * pow2 32"
    by (intro fl_exact) simp_all
  then show ?thesis by (simp add: dmul_def pow2_def)
qed

lemma pow2_neg_nat: "pow2 (- int k) = 1 / 2 ^ k"
  by (simp add: pow2_power_int power_int_minus field_simps)

lemma ilog2_upper: "0 < a \<Longrightarrow> a < pow2 (ilog2 a + 1)"
proof (cases "1 \<le> a")
  case True
  let ?n = "nat \<lfloor>a\<rfloor>"
  from True have pos: "0 < ?n" by simp
  then have b: "0 < bits ?n" by (simp add: bits.simps [of ?n])
  have "?n < 2 ^ bits ?n" by (rule bits_upper)
  then have "int ?n < 2 ^ bits ?n" by (metis of_nat_less_iff of_nat_numeral of_nat_power)
  then have "\<lfloor>a\<rfloor> + 1 \<le> 2 ^ bits ?n" using True by simp
  then have "(of_int (\<lfloor>a\<rfloor> + 1) :: rat) \<le> of_int (2 ^ bits ?n)" by (simp only: of_int_le_iff)
  moreover have "a < of_int (\<lfloor>a\<rfloor> + 1)" by linarith
  ultimately have "a < 2 ^ bits ?n" by simp
  moreover have "ilog2 a + 1 = int (bits ?n)" using True by (simp add: ilog2_def)
  ultimately show ?thesis by (simp add: pow2_nat)
next
  case False
  assume a: "0 < a"
  let ?c = "\<lceil>1 / a\<rceil>"
  let ?m = "nat (?c - 1)"
  from False a have "1 < 1 / a" by simp
  then have c: "2 \<le> ?c" by linarith
  then have m: "0 < ?m" by simp
  then have b: "0 < bits ?m" by (simp add: bits.simps [of ?m])
  from bits_lower [OF m] have "int (2 ^ (bits ?m - 1)) \<le> int ?m" by (simp only: of_nat_le_iff)
  moreover have "0 \<le> ?c - 1" using c by linarith
  then have "int ?m = ?c - 1" by (simp only: int_nat_eq if_True)
  moreover have "int (2 ^ (bits ?m - 1)) = 2 ^ (bits ?m - 1)" by simp
  ultimately have "2 ^ (bits ?m - 1) \<le> ?c - 1" by linarith
  then have "(of_int (2 ^ (bits ?m - 1)) :: rat) \<le> of_int (?c - 1)" by (simp only: of_int_le_iff)
  moreover have "of_int (?c - 1) < 1 / a" by linarith
  ultimately have "2 ^ (bits ?m - 1) < 1 / a" by simp
  then have lt: "a < 1 / 2 ^ (bits ?m - 1)" using a by (simp add: field_simps)
  have "ilog2 a + 1 = - int (bits ?m - 1)" using False b by (simp add: ilog2_def)
  then have "pow2 (ilog2 a + 1) = 1 / 2 ^ (bits ?m - 1)"
    by (simp only: pow2_neg_nat)
  with lt show ?thesis by simp
qed

lemma ilog2_unique:
  assumes "pow2 e \<le> a" "a < pow2 (e + 1)"
  shows "ilog2 a = e"
proof -
  have a: "0 < a" using assms(1) pow2_pos [of e] by linarith
  have "pow2 (ilog2 a) < pow2 (e + 1)" using ilog2_le [OF a] assms(2) by linarith
  then have "ilog2 a < e + 1" by (rule pow2_less_cancel)
  moreover have "pow2 e < pow2 (ilog2 a + 1)" using ilog2_upper [OF a] assms(1) by linarith
  then have "e < ilog2 a + 1" by (rule pow2_less_cancel)
  ultimately show ?thesis by simp
qed

lemma fl_at:
  assumes "pow2 e \<le> a" "a < pow2 (e + 1)"
  shows "fl a = of_int (roundHalfEven (a / pow2 (e - 52))) * pow2 (e - 52)"
proof -
  have a: "0 < a" using assms(1) pow2_pos [of e] by linarith
  show ?thesis using fl_pos_eq [OF a] ilog2_unique [OF assms] by simp
qed

lemma roundHalfEven_up:
  assumes "of_int f + 1 / 2 < x" "x < of_int f + 1"
  shows "roundHalfEven x = f + 1"
proof -
  have "\<lfloor>x\<rfloor> = f" using assms by (intro floor_unique) simp_all
  then show ?thesis using assms by (simp add: roundHalfEven_def Let_def)
qed

lemma roundHalfEven_down:
  assumes "of_int f \<le> x" "x < of_int f + 1 / 2"
  shows "roundHalfEven x = f"
proof -
  have "\<lfloor>x\<rfloor> = f" using assms by (intro floor_unique) simp_all
  then show ?thesis using assms by (simp add: roundHalfEven_def Let_def)
qed

lemma fl_ex: "fl 133444735999999999 = 133444736000000000"
proof -
  have "fl 133444735999999999
      = of_int (roundHalfEven (133444735999999999 / pow2 (56 - 52))) * pow2 (56 - 52)"
    by (rule fl_at) (simp_all add: pow2_def)
  moreover have "roundHalfEven (133444735999999999 / pow2 (56 - 52)) = 8340295999999999 + 1"
    by (rule roundHalfEven_up) (simp_all add: pow2_def)
  ultimately show ?thesis by (simp add: pow2_def)
qed

lemma toInteger_of_int: "toInteger (of_int z) = z"
  by (simp add: toInteger_def)

lemma unixMs_bound:
  assumes "low < 2 ^ 32" "high < 2 ^ 32"
  shows "\<bar>unixMs low high\<bar> \<le> 2 ^ 51"
proof -
  define s where "s = dadd (dmul (of_nat high) 4294967296) (of_nat low)"
  define q where "q = ddiv s 10000"
  have "high * 2 ^ 32 + low \<le> 2 ^ 64" using assms by simp
  then have "(of_nat (high * 2 ^ 32 + low) :: rat) \<le> of_nat (2 ^ 64)"
    by (simp only: of_nat_le_iff)
  then have t: "(of_nat (high * 2 ^ 32) + of_nat low :: rat) \<le> 2 ^ 64" by simp
  have s_eq: "s = fl (of_nat (high * 2 ^ 32) + of_nat low)"
    using assms(2) by (simp only: s_def dadd_def dmul_high)
  have s0: "0 \<le> s" unfolding s_eq by (rule fl_nonneg) simp
  have s1: "s \<le> 2 ^ 64" unfolding s_eq using t by (intro fl_le_pow2) simp_all
  have q0: "0 \<le> q" unfolding q_def ddiv_def using s0 by (intro fl_nonneg) simp
  have "s / 10000 \<le> 2 ^ 51" using s1 by simp
  then have q1: "q \<le> 2 ^ 51" unfolding q_def ddiv_def using s0 by (intro fl_le_pow2) simp_all
  have "\<bar>q - 11644473600000\<bar> \<le> 2 ^ 51" using q0 q1 by simp
  then have "\<bar>fl (q - 11644473600000)\<bar> \<le> 2 ^ 51" by (rule fl_abs_le_pow2)
  then show ?thesis by (simp only: unixMs_def dsub_def q_def s_def)
qed

lemma newDate_unixMs_valid:
  assumes "low < 2 ^ 32" "high < 2 ^ 32"
  shows "newDate (unixMs low high) = Date (toInteger (unixMs low high))"
proof -
  have "\<bar>unixMs low high\<bar> \<le> 2 ^ 51" using assms by (rule unixMs_bound)
  then have "\<not> 8640000000000000 < \<bar>unixMs low high\<bar>" by simp
  then show ?thesis by (simp only: newDate_def if_False)
qed

lemma unixMs_whole_ms:
  assumes "high < 2 ^ 32" "high * 2 ^ 32 + low = 10000 * m" "0 < m" "10000 * m < 2 ^ 57"
  shows "unixMs low high = of_int (int m - 11644473600000)"
proof -
  have m: "int m < 2 ^ 53" "int (625 * m) < 2 ^ 53" using assms(4) by simp_all
  have "(of_nat (high * 2 ^ 32) + of_nat low :: rat) = of_nat (high * 2 ^ 32 + low)"
    by (simp only: of_nat_add)
  also have "\<dots> = of_nat (10000 * m)" by (simp only: assms(2))
  finally have t: "(of_nat (high * 2 ^ 32) + of_nat low :: rat) = of_nat (10000 * m)" .
  have t16: "(of_nat (10000 * m) :: rat) = of_int (int (625 * m)) * pow2 4"
    by (simp add: pow2_def)
  have "fl (of_int (int (625 * m)) * pow2 4) = of_int (int (625 * m)) * pow2 4"
    using assms(3) m(2) by (intro fl_exact) simp_all
  then have s: "dadd (dmul (of_nat high) 4294967296) (of_nat low) = of_nat (10000 * m)"
    using assms(1) by (simp only: dadd_def dmul_high t t16)
  have "(of_nat (10000 * m) :: rat) / 10000 = of_int (int m)" by simp
  moreover have "fl (of_int (int m)) = of_int (int m)"
    using m(1) by (intro fl_exact_int) simp
  ultimately have q: "ddiv (of_nat (10000 * m)) 10000 = of_int (int m)"
    by (simp only: ddiv_def)
  have "\<bar>int m - 11644473600000\<bar> < 2 ^ 53" using m(1) by simp
  then have "fl (of_int (int m - 11644473600000)) = of_int (int m - 11644473600000)"
    by (rule fl_exact_int)
  moreover have "(of_int (int m) :: rat) - 11644473600000 = of_int (int m - 11644473600000)"
    by simp
  ultimately have "dsub (of_int (int m)) 11644473600000 = of_int (int m - 11644473600000)"
    by (simp only: dsub_def)
  then show ?thesis by (simp only: unixMs_def s q)
qed

lemma cex_time:
  "parseFileTime [0xff, 0xff, 0x6c, 0xc6, 0x47, 0x17, 0xda, 0x01] 0 = Inr (Some (Date 1700000000000))"
proof -
  let ?b = "[0xff, 0xff, 0x6c, 0xc6, 0x47, 0x17, 0xda, 0x01] :: buffer"
  have lo: "le32 ?b 0 = 3329032191" and hi: "le32 ?b 4 = 31070023"
    by (simp_all add: le32_def)
  have "parseFileTime ?b 0 = Inr (Some (newDate (unixMs 3329032191 31070023)))"
    using parseFileTime_eq [of 0 ?b] lo hi by simp
  moreover have "dmul (of_nat 31070023) 4294967296 = of_nat (31070023 * 2 ^ 32)"
    by (rule dmul_high) simp
  then have "dadd (dmul (of_nat 31070023) 4294967296) (of_nat 3329032191) = 133444736000000000"
    using fl_ex by (simp add: dadd_def)
  moreover have "fl (of_int 13344473600000) = of_int 13344473600000"
    by (rule fl_exact_int) simp
  then have "ddiv 133444736000000000 10000 = 13344473600000" by (simp add: ddiv_def)
  moreover have "fl (of_int 1700000000000) = of_int 1700000000000"
    by (rule fl_exact_int) simp
  then have "dsub 13344473600000 11644473600000 = 1700000000000" by (simp add: dsub_def)
  ultimately have "parseFileTime ?b 0 = Inr (Some (newDate 1700000000000))"
    by (simp add: unixMs_def)
  moreover have "newDate 1700000000000 = Date 1700000000000"
    using toInteger_of_int [of 1700000000000] by (simp add: newDate_def)
  ultimately show ?thesis by simp
qed

subsection \<open>Accuracy of the timestamp conversion\<close>

lemma floor_le_roundHalfEven: "\<lfloor>x\<rfloor> \<le> roundHalfEven x"
  by (simp add: roundHalfEven_def Let_def)

lemma roundHalfEven_error: "\<bar>of_int (roundHalfEven x) - x\<bar> \<le> 1 / 2"
proof -
  have "of_int \<lfloor>x\<rfloor> \<le> x" "x < of_int \<lfloor>x\<rfloor> + 1" by linarith+
  then show ?thesis by (auto simp: roundHalfEven_def Let_def abs_le_iff)
qed

lemma fl_le_representable:
  assumes "0 \<le> a" "a \<le> of_int n * pow2 k" "0 < n" "n < 2 ^ 53"
  shows "fl a \<le> of_int n * pow2 k"
proof (cases "a = 0")
  case True
  then show ?thesis using assms(3) pow2_pos [of k] by (simp add: fl_def)
next
  case False
  with assms(1) have a: "0 < a" by simp
  define e where "e = ilog2 a"
  define u where "u = pow2 (e - 52)"
  define R :: rat where "R = of_int n * pow2 k"
  have "pow2 e \<le> a" unfolding e_def using a by (rule ilog2_le)
  also have "a \<le> R" using assms(2) by (simp add: R_def)
  also have "R < 2 ^ 53 * pow2 k"
  proof -
    have "(of_int n :: rat) < of_int (2 ^ 53)" using assms(4) by (simp only: of_int_less_iff)
    then have "(of_int n :: rat) < 2 ^ 53" by simp
    then show ?thesis using pow2_pos [of k] by (simp add: R_def)
  qed
  also have "(2::rat) ^ 53 * pow2 k = pow2 (53 + k)"
    using pow2_add [of 53 k] pow2_nat [of 53] by simp
  finally have "e < 53 + k" by (rule pow2_less_cancel)
  then have j: "0 \<le> k - e + 52" by simp
  define j where "j = nat (k - e + 52)"
  have "k = e - 52 + int j" using j by (simp add: j_def)
  then have "pow2 k = pow2 (e - 52 + int j)" by simp
  also have "\<dots> = u * 2 ^ j" by (simp only: pow2_add pow2_nat u_def)
  finally have k: "pow2 k = u * 2 ^ j" .
  have u: "0 < u" unfolding u_def by (rule pow2_pos)
  have Ru: "R = of_int (n * 2 ^ j) * u" by (simp add: R_def k)
  have "a / u \<le> R / u" using \<open>a \<le> R\<close> u by (simp add: divide_right_mono)
  also have "R / u = of_int (n * 2 ^ j)" using u by (simp add: Ru)
  finally have "\<lceil>a / u\<rceil> \<le> n * 2 ^ j" by (simp only: ceiling_le_iff)
  with roundHalfEven_le_ceiling [of "a / u"] have "roundHalfEven (a / u) \<le> n * 2 ^ j"
    by linarith
  then have "(of_int (roundHalfEven (a / u)) :: rat) \<le> of_int (n * 2 ^ j)"
    by (simp only: of_int_le_iff)
  then have "of_int (roundHalfEven (a / u)) * u \<le> of_int (n * 2 ^ j) * u"
    using u by (simp add: mult_right_mono)
  moreover have "fl a = of_int (roundHalfEven (a / u)) * u"
    unfolding u_def e_def using a by (rule fl_pos_eq)
  ultimately show ?thesis by (simp only: Ru [symmetric] R_def)
qed

lemma fl_ge_pow2_ilog2:
  assumes "0 < a"
  shows "pow2 (ilog2 a) \<le> fl a"
proof -
  define e where "e = ilog2 a"
  define u where "u = pow2 (e - 52)"
  have u: "0 < u" unfolding u_def by (rule pow2_pos)
  have "e = e - 52 + int 52" by simp
  then have "pow2 e = pow2 (e - 52 + int 52)" by simp
  also have "\<dots> = u * 2 ^ 52" by (simp only: pow2_add pow2_nat u_def)
  finally have pe: "pow2 e = u * 2 ^ 52" .
  have "pow2 e \<le> a" unfolding e_def using assms by (rule ilog2_le)
  then have "pow2 e / u \<le> a / u" using u by (simp add: divide_right_mono)
  moreover have "pow2 e / u = of_int (2 ^ 52)" using u by (simp add: pe)
  ultimately have "of_int (2 ^ 52) \<le> a / u" by simp
  then have "2 ^ 52 \<le> \<lfloor>a / u\<rfloor>" by (simp only: le_floor_iff)
  with floor_le_roundHalfEven [of "a / u"] have "2 ^ 52 \<le> roundHalfEven (a / u)" by linarith
  then have "(of_int (2 ^ 52) :: rat) \<le> of_int (roundHalfEven (a / u))"
    by (simp only: of_int_le_iff)
  then have "of_int (2 ^ 52) * u \<le> of_int (roundHalfEven (a / u)) * u"
    using u by (simp add: mult_right_mono)
  moreover have "fl a = of_int (roundHalfEven (a / u)) * u"
    unfolding u_def e_def using assms by (rule fl_pos_eq)
  ultimately show ?thesis unfolding e_def [symmetric] by (simp add: pe mult.commute)
qed

lemma fl_ge_representable:
  assumes "of_int n * pow2 k \<le> a" "0 < n" "n < 2 ^ 53"
  shows "of_int n * pow2 k \<le> fl a"
proof -
  define R :: rat where "R = of_int n * pow2 k"
  have R: "0 < R" using assms(2) pow2_pos [of k] by (simp add: R_def)
  have a: "0 < a" using R assms(1) by (simp add: R_def)
  define e where "e = ilog2 a"
  define u where "u = pow2 (e - 52)"
  have u: "0 < u" unfolding u_def by (rule pow2_pos)
  have fa: "fl a = of_int (roundHalfEven (a / u)) * u"
    unfolding u_def e_def using a by (rule fl_pos_eq)
  show ?thesis
  proof (cases "e - 52 \<le> k")
    case True
    define j where "j = nat (k - e + 52)"
    have "k = e - 52 + int j" using True by (simp add: j_def)
    then have "pow2 k = pow2 (e - 52 + int j)" by simp
    also have "\<dots> = u * 2 ^ j" by (simp only: pow2_add pow2_nat u_def)
    finally have k: "pow2 k = u * 2 ^ j" .
    have Ru: "R = of_int (n * 2 ^ j) * u" by (simp add: R_def k)
    have "R / u \<le> a / u" using assms(1) u by (simp add: R_def divide_right_mono)
    moreover have "R / u = of_int (n * 2 ^ j)" using u by (simp add: Ru)
    ultimately have "of_int (n * 2 ^ j) \<le> a / u" by simp
    then have "n * 2 ^ j \<le> \<lfloor>a / u\<rfloor>" by (simp only: le_floor_iff)
    with floor_le_roundHalfEven [of "a / u"] have "n * 2 ^ j \<le> roundHalfEven (a / u)"
      by linarith
    then have "(of_int (n * 2 ^ j) :: rat) \<le> of_int (roundHalfEven (a / u))"
      by (simp only: of_int_le_iff)
    then have "of_int (n * 2 ^ j) * u \<le> of_int (roundHalfEven (a / u)) * u"
      using u by (simp add: mult_right_mono)
    then show ?thesis by (simp only: fa Ru [symmetric] R_def)
  next
    case False
    then have "53 + k \<le> e" by simp
    then have "pow2 (53 + k) \<le> pow2 e" by (rule pow2_mono)
    moreover have "R < 2 ^ 53 * pow2 k"
    proof -
      have "(of_int n :: rat) < of_int (2 ^ 53)" using assms(3) by (simp only: of_int_less_iff)
      then have "(of_int n :: rat) < 2 ^ 53" by simp
      then show ?thesis using pow2_pos [of k] by (simp add: R_def)
    qed
    moreover have "(2::rat) ^ 53 * pow2 k = pow2 (53 + k)"
      using pow2_add [of 53 k] pow2_nat [of 53] by simp
    moreover have "pow2 e \<le> fl a" unfolding e_def using a by (rule fl_ge_pow2_ilog2)
    ultimately show ?thesis by (simp add: R_def)
  qed
qed

lemma fl_le_int:
  assumes "a \<le> of_int z" "\<bar>z\<bar> < 2 ^ 53"
  shows "fl a \<le> of_int z"
proof -
  consider "0 \<le> a" "0 < z" | "0 \<le> a" "z \<le> 0" | "a < 0" "0 \<le> z" | "a < 0" "z < 0" by linarith
  then show ?thesis
  proof cases
    case 1
    have "fl a \<le> of_int z * pow2 0"
      using 1 assms by (intro fl_le_representable) (simp_all add: pow2_def)
    then show ?thesis by (simp add: pow2_def)
  next
    case 2
    with assms(1) have "a = 0" "z = 0" by simp_all
    then show ?thesis by (simp add: fl_def)
  next
    case 3
    then have "0 \<le> fl (- a)" by (intro fl_nonneg) simp
    with 3 show ?thesis by (simp add: fl_neg)
  next
    case 4
    have "of_int (- z) * pow2 0 \<le> fl (- a)"
      using 4 assms by (intro fl_ge_representable) (simp_all add: pow2_def)
    then show ?thesis by (simp add: pow2_def fl_neg)
  qed
qed

lemma fl_ge_int:
  assumes "of_int z \<le> a" "\<bar>z\<bar> < 2 ^ 53"
  shows "of_int z \<le> fl a"
proof -
  have "- a \<le> of_int (- z)" using assms(1) by simp
  moreover have "\<bar>- z\<bar> < 2 ^ 53" using assms(2) by simp
  ultimately have "fl (- a) \<le> of_int (- z)" by (rule fl_le_int)
  then show ?thesis by (simp add: fl_neg)
qed

lemma toInteger_ge: "of_int z \<le> x \<Longrightarrow> z \<le> toInteger x"
  by (simp add: toInteger_def le_floor_iff) linarith

lemma toInteger_le: "x \<le> of_int z \<Longrightarrow> toInteger x \<le> z"
  by (simp add: toInteger_def ceiling_le_iff) linarith

lemma fl_error:
  assumes "0 < a" "a < pow2 (e + 1)"
  shows "\<bar>fl a - a\<bar> \<le> pow2 (e - 53)"
proof -
  define i where "i = ilog2 a"
  define u where "u = pow2 (i - 52)"
  have u: "0 < u" unfolding u_def by (rule pow2_pos)
  have "pow2 i \<le> a" unfolding i_def using assms(1) by (rule ilog2_le)
  with assms(2) have "pow2 i < pow2 (e + 1)" by linarith
  then have "i < e + 1" by (rule pow2_less_cancel)
  then have "i - 53 \<le> e - 53" by simp
  then have le: "pow2 (i - 53) \<le> pow2 (e - 53)" by (rule pow2_mono)
  have "i - 52 = (i - 53) + int 1" by simp
  then have "pow2 (i - 52) = pow2 ((i - 53) + int 1)" by simp
  also have "\<dots> = pow2 (i - 53) * 2" by (simp only: pow2_add pow2_nat) simp
  finally have half: "u = pow2 (i - 53) * 2" by (simp add: u_def)
  have fa: "fl a = of_int (roundHalfEven (a / u)) * u"
    unfolding u_def i_def using assms(1) by (rule fl_pos_eq)
  have "fl a - a = (of_int (roundHalfEven (a / u)) - a / u) * u"
    using u by (simp add: fa algebra_simps)
  then have "\<bar>fl a - a\<bar> = \<bar>of_int (roundHalfEven (a / u)) - a / u\<bar> * u"
    using u by (simp add: abs_mult)
  also have "\<dots> \<le> (1 / 2) * u"
    using roundHalfEven_error [of "a / u"] u by (intro mult_right_mono) simp_all
  also have "\<dots> = pow2 (i - 53)" by (simp add: half)
  finally show ?thesis using le by linarith
qed

lemma floor_diff_le_1:
  assumes "\<bar>u - x\<bar> < (1::rat)"
  shows "\<bar>\<lfloor>u\<rfloor> - \<lfloor>x\<rfloor>\<bar> \<le> 1"
proof -
  have a: "u \<le> x + 1" "x \<le> u + 1" using assms by (simp_all add: abs_less_iff)
  from a(1) have "\<lfloor>u\<rfloor> \<le> \<lfloor>x + 1\<rfloor>" by (rule floor_mono)
  moreover from a(2) have "\<lfloor>x\<rfloor> \<le> \<lfloor>u + 1\<rfloor>" by (rule floor_mono)
  moreover have "\<lfloor>x + 1\<rfloor> = \<lfloor>x\<rfloor> + 1" "\<lfloor>u + 1\<rfloor> = \<lfloor>u\<rfloor> + 1" by simp_all
  ultimately show ?thesis by linarith
qed

lemma exactUnixMs_floor:
  "exactUnixMs low high = \<lfloor>(of_nat (high * 2 ^ 32 + low) :: rat) / 10000 - 11644473600000\<rfloor>"
proof -
  have "\<lfloor>(of_nat (high * 2 ^ 32 + low) :: rat) / of_nat 10000\<rfloor>
      = int ((high * 2 ^ 32 + low) div 10000)"
    by (simp only: floor_divide_of_nat_eq)
  moreover have "\<lfloor>(of_nat (high * 2 ^ 32 + low) :: rat) / 10000 - 11644473600000\<rfloor>
      = \<lfloor>(of_nat (high * 2 ^ 32 + low) :: rat) / of_nat 10000\<rfloor> - 11644473600000"
    using floor_diff_of_int [of "(of_nat (high * 2 ^ 32 + low) :: rat) / 10000" 11644473600000]
    by simp
  ultimately show ?thesis by (simp add: exactUnixMs_def)
qed

lemma unixMs_before_epoch:
  assumes hi: "high < 2 ^ 32" and pos: "0 < high * 2 ^ 32 + low"
    and lt: "high * 2 ^ 32 + low < 116444736000000000"
  shows "exactUnixMs low high \<le> toInteger (unixMs low high)"
    and "toInteger (unixMs low high) \<le> exactUnixMs low high + 1"
proof -
  define T where "T = high * 2 ^ 32 + low"
  define m where "m = T div 10000"
  define s where "s = dadd (dmul (of_nat high) 4294967296) (of_nat low)"
  define q where "q = ddiv s 10000"
  have m_lt: "m < 11644473600000" using lt by (simp add: m_def T_def)
  have lo: "10000 * m \<le> T" by (simp add: m_def)
  have up: "T \<le> 10000 * (m + 1)"
    using div_mult_mod_eq [of T 10000] by (simp add: m_def)
  have s_eq: "s = fl (of_nat T)"
    using hi by (simp only: s_def dadd_def dmul_high T_def of_nat_add)
  have s_lo: "of_int (int m) * 10000 \<le> s"
  proof (cases "m = 0")
    case True
    have "0 \<le> s" unfolding s_eq by (rule fl_nonneg) simp
    with True show ?thesis by simp
  next
    case False
    have "(of_nat (10000 * m) :: rat) \<le> of_nat T" using lo by (simp only: of_nat_le_iff)
    moreover have "(of_nat (10000 * m) :: rat) = of_int (int (625 * m)) * pow2 4"
      by (simp add: pow2_def)
    ultimately have "of_int (int (625 * m)) * pow2 4 \<le> fl (of_nat T)"
      using False m_lt by (intro fl_ge_representable) simp_all
    then show ?thesis by (simp add: s_eq pow2_def)
  qed
  have s_up: "s \<le> of_int (int m + 1) * 10000"
  proof -
    have "(of_nat T :: rat) \<le> of_nat (10000 * (m + 1))" using up by (simp only: of_nat_le_iff)
    moreover have "(of_nat (10000 * (m + 1)) :: rat) = of_int (int (625 * (m + 1))) * pow2 4"
      by (simp add: pow2_def)
    ultimately have "fl (of_nat T) \<le> of_int (int (625 * (m + 1))) * pow2 4"
      using m_lt by (intro fl_le_representable) simp_all
    then show ?thesis by (simp add: s_eq pow2_def)
  qed
  have "of_int (int m) \<le> s / 10000" using s_lo by simp
  then have q_lo: "of_int (int m) \<le> q"
    unfolding q_def ddiv_def using m_lt by (intro fl_ge_int) simp_all
  have "s / 10000 \<le> of_int (int m + 1)" using s_up by simp
  then have q_up: "q \<le> of_int (int m + 1)"
    unfolding q_def ddiv_def using m_lt by (intro fl_le_int) simp_all
  have u: "unixMs low high = fl (q - 11644473600000)"
    by (simp only: unixMs_def dsub_def q_def s_def)
  have "of_int (int m - 11644473600000) \<le> q - 11644473600000" using q_lo by simp
  then have "of_int (int m - 11644473600000) \<le> unixMs low high"
    unfolding u using m_lt by (intro fl_ge_int) simp_all
  then have r_lo: "int m - 11644473600000 \<le> toInteger (unixMs low high)"
    by (rule toInteger_ge)
  have "q - 11644473600000 \<le> of_int (int m + 1 - 11644473600000)" using q_up by simp
  then have "unixMs low high \<le> of_int (int m + 1 - 11644473600000)"
    unfolding u using m_lt by (intro fl_le_int) simp_all
  then have r_up: "toInteger (unixMs low high) \<le> int m + 1 - 11644473600000"
    by (rule toInteger_le)
  have e: "exactUnixMs low high = int m - 11644473600000"
    by (simp add: exactUnixMs_def m_def T_def)
  show "exactUnixMs low high \<le> toInteger (unixMs low high)" using r_lo by (simp only: e)
  show "toInteger (unixMs low high) \<le> exactUnixMs low high + 1" using r_up by (simp add: e)
qed

lemma unixMs_after_epoch:
  assumes hi: "high < 2 ^ 32" and lo: "low < 2 ^ 32"
    and ge: "116444736000000000 \<le> high * 2 ^ 32 + low"
  shows "\<bar>toInteger (unixMs low high) - exactUnixMs low high\<bar> \<le> 1"
proof -
  define t :: rat where "t = of_nat (high * 2 ^ 32 + low)"
  define s where "s = dadd (dmul (of_nat high) 4294967296) (of_nat low)"
  define q where "q = ddiv s 10000"
  define x where "x = t / 10000 - 11644473600000"
  have s_eq: "s = fl t"
    using hi by (simp only: s_def dadd_def dmul_high t_def of_nat_add)
  have "high * 2 ^ 32 + low < 2 ^ 64" using hi lo by simp
  then have "(of_nat (high * 2 ^ 32 + low) :: rat) < of_nat (2 ^ 64)"
    by (simp only: of_nat_less_iff)
  then have t_lt: "t < 2 ^ 64" by (simp add: t_def)
  have "(of_nat 116444736000000000 :: rat) \<le> of_nat (high * 2 ^ 32 + low)"
    using ge by (simp only: of_nat_le_iff)
  then have t_ge: "116444736000000000 \<le> t" by (simp add: t_def)
  then have t_pos: "0 < t" by simp
  have "t < pow2 (63 + 1)" using t_lt by (simp add: pow2_def)
  with t_pos have "\<bar>fl t - t\<bar> \<le> pow2 (63 - 53)" by (rule fl_error)
  then have e1: "\<bar>s - t\<bar> \<le> 1024" by (simp add: s_eq pow2_def)
  have "of_int 7277796000000000 * pow2 4 \<le> fl t"
    using t_ge by (intro fl_ge_representable) (simp_all add: pow2_def)
  then have s_ge: "116444736000000000 \<le> s" by (simp add: s_eq pow2_def)
  have s_le: "s \<le> 2 ^ 64" unfolding s_eq using t_pos t_lt by (intro fl_le_pow2) simp_all
  have a2_pos: "0 < s / 10000" using s_ge by simp
  have a2_lt: "s / 10000 < pow2 (50 + 1)" using s_le by (simp add: pow2_def)
  from a2_pos a2_lt have "\<bar>fl (s / 10000) - s / 10000\<bar> \<le> pow2 (50 - 53)" by (rule fl_error)
  then have e2: "\<bar>q - s / 10000\<bar> \<le> 1 / 8" by (simp add: q_def ddiv_def pow2_def)
  have "of_int 11644473600000 \<le> s / 10000" using s_ge by simp
  then have "of_int 11644473600000 \<le> fl (s / 10000)" by (rule fl_ge_int) simp
  then have q_ge: "11644473600000 \<le> q" by (simp add: q_def ddiv_def)
  have "s / 10000 \<le> 2 ^ 51" using s_le by simp
  then have q_le: "q \<le> 2 ^ 51"
    unfolding q_def ddiv_def using a2_pos by (intro fl_le_pow2) simp_all
  define a3 where "a3 = q - 11644473600000"
  have a3_nonneg: "0 \<le> a3" using q_ge by (simp add: a3_def)
  have a3_lt: "a3 < pow2 (50 + 1)" using q_le by (simp add: a3_def pow2_def)
  have e3: "\<bar>fl a3 - a3\<bar> \<le> 1 / 8"
  proof (cases "a3 = 0")
    case True
    then show ?thesis by (simp add: fl_def)
  next
    case False
    with a3_nonneg have "0 < a3" by simp
    from this a3_lt have "\<bar>fl a3 - a3\<bar> \<le> pow2 (50 - 53)" by (rule fl_error)
    then show ?thesis by (simp add: pow2_def)
  qed
  have u_eq: "unixMs low high = fl a3"
    by (simp only: unixMs_def dsub_def a3_def q_def s_def)
  have u_nonneg: "0 \<le> fl a3" using a3_nonneg by (rule fl_nonneg)
  have "fl a3 - x = (fl a3 - a3) + (q - s / 10000) + (s - t) / 10000"
    by (simp add: x_def a3_def field_simps)
  moreover have "\<bar>(s - t) / 10000\<bar> \<le> 1024 / 10000"
    using e1 by (simp add: abs_divide divide_right_mono)
  ultimately have "\<bar>fl a3 - x\<bar> \<le> 1 / 8 + 1 / 8 + 1024 / 10000"
    using e2 e3 by linarith
  then have "\<bar>fl a3 - x\<bar> < 1" by simp
  then have "\<bar>\<lfloor>fl a3\<rfloor> - \<lfloor>x\<rfloor>\<bar> \<le> 1" by (rule floor_diff_le_1)
  moreover have "toInteger (unixMs low high) = \<lfloor>fl a3\<rfloor>"
    using u_nonneg by (simp add: u_eq toInteger_def)
  moreover have "exactUnixMs low high = \<lfloor>x\<rfloor>"
    by (simp only: exactUnixMs_floor x_def t_def)
  ultimately show ?thesis by simp
qed

lemma unixMs_within_one:
  assumes hi: "high < 2 ^ 32" and lo: "low < 2 ^ 32" and nz: "\<not> (low = 0 \<and> high = 0)"
  shows "\<bar>toInteger (unixMs low high) - exactUnixMs low high\<bar> \<le> 1"
proof (cases "high * 2 ^ 32 + low < 116444736000000000")
  case True
  have "0 < high * 2 ^ 32 + low" using nz by auto
  from unixMs_before_epoch [OF hi this True] show ?thesis by simp
next
  case False
  then have "116444736000000000 \<le> high * 2 ^ 32 + low" by simp
  with hi lo show ?thesis by (rule unixMs_after_epoch)
qed

section \<open>The decoded entry\<close>

lemma parseFileTime_at:
  "i + 8 \<le> length buf \<Longrightarrow> parseFileTime buf (int i) = Inr (fileTimeAt buf i)"
  using parseFileTime_eq [of "int i" buf] by (simp add: fileTimeAt_def)

lemma fileTimeAt_valid: "fileTimeAt buf i = None \<or> (\<exists>ms. fileTimeAt buf i = Some (Date ms))"
  using newDate_unixMs_valid [OF le32_less le32_less, of buf i buf "i + 4"]
  by (simp add: fileTimeAt_def)

lemma slice8:
  "i + 8 \<le> length xs \<Longrightarrow>
     take 8 (drop i xs) = [xs ! i, xs ! (i + 1), xs ! (i + 2), xs ! (i + 3),
                           xs ! (i + 4), xs ! (i + 5), xs ! (i + 6), xs ! (i + 7)]"
proof -
  assume a: "i + 8 \<le> length xs"
  have s: "(8::nat) = Suc (Suc (Suc (Suc (Suc (Suc (Suc (Suc 0)))))))" by simp
  have "take (Suc (Suc (Suc (Suc (Suc (Suc (Suc (Suc 0)))))))) (drop i xs)
      = [xs ! i, xs ! Suc i, xs ! Suc (Suc i), xs ! Suc (Suc (Suc i)),
         xs ! Suc (Suc (Suc (Suc i))), xs ! Suc (Suc (Suc (Suc (Suc i)))),
         xs ! Suc (Suc (Suc (Suc (Suc (Suc i))))), xs ! Suc (Suc (Suc (Suc (Suc (Suc (Suc i))))))]"
    using a by (simp add: take_drop_nth)
  moreover have "Suc i = i + 1" "Suc (Suc i) = i + 2" "Suc (Suc (Suc i)) = i + 3"
    "Suc (Suc (Suc (Suc i))) = i + 4" "Suc (Suc (Suc (Suc (Suc i)))) = i + 5"
    "Suc (Suc (Suc (Suc (Suc (Suc i))))) = i + 6"
    "Suc (Suc (Suc (Suc (Suc (Suc (Suc i)))))) = i + 7" by simp_all
  ultimately show ?thesis by (simp only: s)
qed

lemma replicate8: "replicate 8 x = [x, x, x, x, x, x, x, x]"
proof -
  have s: "(8::nat) = Suc (Suc (Suc (Suc (Suc (Suc (Suc (Suc 0)))))))" by simp
  show ?thesis by (simp only: s replicate.simps)
qed

lemma fileTimeAt_None_iff:
  assumes "i + 8 \<le> length buf"
  shows "fileTimeAt buf i = None \<longleftrightarrow> take 8 (drop i buf) = replicate 8 0"
proof -
  have e: "i + 4 + 1 = i + 5" "i + 4 + 2 = i + 6" "i + 4 + 3 = i + 7" by simp_all
  have "fileTimeAt buf i = None \<longleftrightarrow> le32 buf i = 0 \<and> le32 buf (i + 4) = 0"
    by (simp add: fileTimeAt_def)
  also have "\<dots> \<longleftrightarrow> take 8 (drop i buf) = replicate 8 0"
    by (simp only: slice8 [OF assms] replicate8 le32_zero_iff e list.inject) blast
  finally show ?thesis .
qed

lemma SEVERITY_STR_le4:
  "n \<le> 4 \<Longrightarrow> SEVERITY_STR n = Some ([''Verbose'', ''Info'', ''Warning'', ''Error'', ''Critical''] ! n)"
proof -
  assume "n \<le> 4"
  then consider "n = 0" | "n = 1" | "n = 2" | "n = 3" | "n = 4" by linarith
  then show ?thesis by cases (simp_all add: SEVERITY_STR_def)
qed

lemma parseEventEntry_body_fields:
  assumes len: "84 \<le> length data"
  shows "\<exists>e. parseEventEntry_body data = Inr (Some e)
     \<and> severityRaw e = unat (data ! 36)
     \<and> severityLevel e = (if unat (data ! 36) \<le> 4 then unat (data ! 36) else 0)
     \<and> severity e = (if unat (data ! 36) \<le> 4
                       then [''Verbose'', ''Info'', ''Warning'', ''Error'', ''Critical'']
                              ! unat (data ! 36)
                       else ''Verbose'')
     \<and> eventKind e = le32 data 40
     \<and> isAlarm e = (le32 data 40 = 2)
     \<and> alarmState e = (if unat (data ! 52) = 1 then ''Raised'' else ''Cleared'')
     \<and> timeRaised e = fileTimeAt data 60
     \<and> timeCleared e = fileTimeAt data 68
     \<and> timeConfirmed e = fileTimeAt data 76"
proof -
  have r0: "readUInt32LE data 0 = Inr (le32 data 0)"
    and r4: "readUInt16LE data 4 = Inr (le16 data 4)"
    and r8: "readUInt32LE data 8 = Inr (le32 data 8)"
    and r28: "readUInt32LE data 28 = Inr (le32 data 28)"
    and r36: "readUInt8 data 36 = Inr (unat (data ! 36))"
    and r40: "readUInt32LE data 40 = Inr (le32 data 40)"
    and r52: "readUInt8 data 52 = Inr (unat (data ! 52))"
    using len by (simp_all add: readUInt32LE_def readUInt16LE_def readUInt8_def)
  have "0 \<le> (12::int)" "12 + 16 \<le> int (length data)" using len by simp_all
  from parseGuid_groups [OF this] obtain g where g: "parseGuid data 12 = Inr (Some g)"
    by blast
  have t60: "parseFileTime data 60 = Inr (fileTimeAt data 60)"
    using parseFileTime_at [of 60 data] len by simp
  have t68: "parseFileTime data 68 = Inr (fileTimeAt data 68)"
    using parseFileTime_at [of 68 data] len by simp
  have t76: "parseFileTime data 76 = Inr (fileTimeAt data 76)"
    using parseFileTime_at [of 76 data] len by simp
  show ?thesis
    unfolding parseEventEntry_body_def
    by (simp only: r0 r4 r8 r28 r36 r40 r52 g t60 t68 t76 bind_res_def sum.case Let_def)
      (simp add: SEVERITY_STR_le4)
qed

lemma parseEventEntry_long:
  "84 \<le> length data \<Longrightarrow> parseEventEntry (Buffer data) = ([], parseEventEntry_body data)"
  by (simp add: parseEventEntry_def MIN_EVENT_SIZE_def)

lemma parseEventEntry_short:
  "length data < 84 \<Longrightarrow>
     parseEventEntry (Buffer data) = ([Warn_too_short (Some (length data))], Inr None)"
  by (simp add: parseEventEntry_def MIN_EVENT_SIZE_def)

section \<open>Claims about the decoder\<close>

text \<open>
  Claim C5.  \<^verbatim>\<open>parseGuid\<close> returns null, without throwing, whenever fewer than 16 bytes
  are available from the offset.  Otherwise (the offset being a position in the buffer)
  it renders the first four bytes in reversed order (a little-endian 32-bit group), the
  next two pairs in reversed order (little-endian 16-bit groups), and the remaining two
  and six bytes in buffer order (big-endian groups), as lower-case hexadecimal separated
  by dashes.  On the bytes \<open>14 9f 0d 16 7e d9 62 44 af ad ea 4c d4 82 96 b4\<close> at offset 0 the
  result is \<open>160d9f14-d97e-4462-afad-ea4cd48296b4\<close>.
\<close>

theorem parseGuid_renders_mixed_endian:
  "(int (length buf) < off + 16 \<longrightarrow> parseGuid buf off = Inr None)
   \<and> (0 \<le> off \<and> off + 16 \<le> int (length buf) \<longrightarrow>
        parseGuid buf off = Inr (Some (
          hexByte (buf ! (nat off + 3)) @ hexByte (buf ! (nat off + 2))
            @ hexByte (buf ! (nat off + 1)) @ hexByte (buf ! nat off) @ ''-''
          @ hexByte (buf ! (nat off + 5)) @ hexByte (buf ! (nat off + 4)) @ ''-''
          @ hexByte (buf ! (nat off + 7)) @ hexByte (buf ! (nat off + 6)) @ ''-''
          @ toStringHex [buf ! (nat off + 8), buf ! (nat off + 9)] @ ''-''
          @ toStringHex [buf ! (nat off + 10), buf ! (nat off + 11), buf ! (nat off + 12),
                         buf ! (nat off + 13), buf ! (nat off + 14), buf ! (nat off + 15)])))
   \<and> parseGuid [0x14, 0x9f, 0x0d, 0x16, 0x7e, 0xd9, 0x62, 0x44,
                 0xaf, 0xad, 0xea, 0x4c, 0xd4, 0x82, 0x96, 0xb4] 0
       = Inr (Some ''160d9f14-d97e-4462-afad-ea4cd48296b4'')"
proof (intro conjI impI)
  assume "int (length buf) < off + 16"
  then show "parseGuid buf off = Inr None" by (rule parseGuid_short)
next
  assume "0 \<le> off \<and> off + 16 \<le> int (length buf)"
  then show "parseGuid buf off = Inr (Some (
          hexByte (buf ! (nat off + 3)) @ hexByte (buf ! (nat off + 2))
            @ hexByte (buf ! (nat off + 1)) @ hexByte (buf ! nat off) @ ''-''
          @ hexByte (buf ! (nat off + 5)) @ hexByte (buf ! (nat off + 4)) @ ''-''
          @ hexByte (buf ! (nat off + 7)) @ hexByte (buf ! (nat off + 6)) @ ''-''
          @ toStringHex [buf ! (nat off + 8), buf ! (nat off + 9)] @ ''-''
          @ toStringHex [buf ! (nat off + 10), buf ! (nat off + 11), buf ! (nat off + 12),
                         buf ! (nat off + 13), buf ! (nat off + 14), buf ! (nat off + 15)]))"
    by (simp add: parseGuid_groups)
next
  show "parseGuid [0x14, 0x9f, 0x0d, 0x16, 0x7e, 0xd9, 0x62, 0x44,
                   0xaf, 0xad, 0xea, 0x4c, 0xd4, 0x82, 0x96, 0xb4] 0
       = Inr (Some ''160d9f14-d97e-4462-afad-ea4cd48296b4'')"
    using parseGuid_groups [of 0 "[0x14, 0x9f, 0x0d, 0x16, 0x7e, 0xd9, 0x62, 0x44,
                   0xaf, 0xad, 0xea, 0x4c, 0xd4, 0x82, 0x96, 0xb4]"]
    by (simp add: hexByte_def hexDigit_def toStringHex_def)
qed

theorem parseGuid_renders_mixed_endian_witness:
  "int (length [0x14, 0x9f, 0x0d :: byte]) < 0 + 16
   \<and> parseGuid [0x14, 0x9f, 0x0d] 0 = Inr None
   \<and> (0::int) \<le> 0
   \<and> 0 + 16 \<le> int (length [0xb4, 0x96, 0x82, 0xd4, 0x4c, 0xea, 0xad, 0xaf,
                                0x44, 0x62, 0xd9, 0x7e, 0x16, 0x0d, 0x9f, 0x14 :: byte])
   \<and> parseGuid [0xb4, 0x96, 0x82, 0xd4, 0x4c, 0xea, 0xad, 0xaf,
                 0x44, 0x62, 0xd9, 0x7e, 0x16, 0x0d, 0x9f, 0x14] 0
       = Inr (Some ''d48296b4-ea4c-afad-4462-d97e160d9f14'')"
  using parseGuid_renders_mixed_endian [of "[0x14, 0x9f, 0x0d]" 0]
    parseGuid_renders_mixed_endian [of "[0xb4, 0x96, 0x82, 0xd4, 0x4c, 0xea, 0xad, 0xaf,
                 0x44, 0x62, 0xd9, 0x7e, 0x16, 0x0d, 0x9f, 0x14]" 0]
  by (simp add: hexByte_def hexDigit_def toStringHex_def)

text \<open>
  Claim C2, as amended.  With at least eight bytes available at a position of the buffer
  and the two little-endian words not both zero, \<^verbatim>\<open>parseFileTime\<close> returns a valid
  instant whose millisecond value is the double-precision evaluation of
  \<open>(high * 2^32 + low) / 10000 - 11644473600000\<close>, truncated towards zero.  For every
  64-bit tick count this value is at most one millisecond away from the exact integer
  value, and whenever the tick count is a whole number of milliseconds below \<open>2^57\<close>
  (instants before the year 2057) it is the exact value.  No 64-bit integer arithmetic
  is involved, so other tick values may be rounded.
\<close>

theorem parseFileTime_double_precision:
  assumes "0 \<le> off" "off + 8 \<le> int (length buf)"
    and "low = le32 buf (nat off)" "high = le32 buf (nat off + 4)"
    and "\<not> (low = 0 \<and> high = 0)"
  shows "parseFileTime buf off = Inr (Some (Date (toInteger (unixMs low high))))
     \<and> \<bar>toInteger (unixMs low high) - exactUnixMs low high\<bar> \<le> 1
     \<and> ((high * 2 ^ 32 + low) mod 10000 = 0 \<and> high * 2 ^ 32 + low < 2 ^ 57 \<longrightarrow>
          parseFileTime buf off = Inr (Some (Date (exactUnixMs low high))))"
proof -
  have lo: "low < 2 ^ 32" and hi: "high < 2 ^ 32"
    unfolding assms(3,4) by (rule le32_less)+
  have p: "parseFileTime buf off = Inr (Some (newDate (unixMs low high)))"
    using parseFileTime_eq [OF assms(1,2)] assms(3,4,5) by simp
  then have a: "parseFileTime buf off = Inr (Some (Date (toInteger (unixMs low high))))"
    by (simp only: newDate_unixMs_valid [OF lo hi])
  have b: "parseFileTime buf off = Inr (Some (Date (exactUnixMs low high)))"
    if m: "(high * 2 ^ 32 + low) mod 10000 = 0" and lt: "high * 2 ^ 32 + low < 2 ^ 57"
  proof -
    define m where "m = (high * 2 ^ 32 + low) div 10000"
    have "10000 dvd high * 2 ^ 32 + low" using m by (simp only: mod_eq_0_iff_dvd)
    then have "10000 * ((high * 2 ^ 32 + low) div 10000) = high * 2 ^ 32 + low"
      by (rule dvd_mult_div_cancel)
    then have t: "high * 2 ^ 32 + low = 10000 * m" by (simp only: m_def)
    have "0 < high * 2 ^ 32 + low" using assms(5) by auto
    then have "0 < 10000 * m" by (simp only: t)
    then have m0: "0 < m" by simp
    have "unixMs low high = of_int (int m - 11644473600000)"
      using hi t m0 lt by (intro unixMs_whole_ms) simp_all
    moreover have "exactUnixMs low high = int m - 11644473600000"
      by (simp add: exactUnixMs_def m_def)
    ultimately show ?thesis by (simp only: a toInteger_of_int)
  qed
  show ?thesis
  proof (intro conjI impI)
    show "parseFileTime buf off = Inr (Some (Date (toInteger (unixMs low high))))"
      by (rule a)
  next
    show "\<bar>toInteger (unixMs low high) - exactUnixMs low high\<bar> \<le> 1"
      using hi lo assms(5) by (rule unixMs_within_one)
  next
    assume "(high * 2 ^ 32 + low) mod 10000 = 0 \<and> high * 2 ^ 32 + low < 2 ^ 57"
    then show "parseFileTime buf off = Inr (Some (Date (exactUnixMs low high)))"
      by (elim conjE) (rule b)
  qed
qed

theorem parseFileTime_double_precision_witness:
  "(0::int) \<le> 0
   \<and> 0 + 8 \<le> int (length [0, 0, 0x6d, 0xc6, 0x47, 0x17, 0xda, 0x01 :: byte])
   \<and> \<not> (le32 [0, 0, 0x6d, 0xc6, 0x47, 0x17, 0xda, 0x01] 0 = 0
          \<and> le32 [0, 0, 0x6d, 0xc6, 0x47, 0x17, 0xda, 0x01] 4 = 0)
   \<and> (le32 [0, 0, 0x6d, 0xc6, 0x47, 0x17, 0xda, 0x01] 4 * 2 ^ 32
        + le32 [0, 0, 0x6d, 0xc6, 0x47, 0x17, 0xda, 0x01] 0) mod 10000 = 0
   \<and> le32 [0, 0, 0x6d, 0xc6, 0x47, 0x17, 0xda, 0x01] 4 * 2 ^ 32
        + le32 [0, 0, 0x6d, 0xc6, 0x47, 0x17, 0xda, 0x01] 0 < 2 ^ 57
   \<and> parseFileTime [0, 0, 0x6d, 0xc6, 0x47, 0x17, 0xda, 0x01] 0
        = Inr (Some (Date 1700000000000))"
proof -
  let ?w = "[0, 0, 0x6d, 0xc6, 0x47, 0x17, 0xda, 0x01] :: buffer"
  have lo: "le32 ?w 0 = 3329032192" and hi: "le32 ?w 4 = 31070023"
    by (simp_all add: le32_def)
  have h1: "(0::int) \<le> 0" and h2: "0 + 8 \<le> int (length ?w)" by simp_all
  have h3: "3329032192 = le32 ?w (nat 0)" and h4: "31070023 = le32 ?w (nat 0 + 4)"
    by (simp_all add: lo hi)
  have h5: "\<not> ((3329032192::nat) = 0 \<and> (31070023::nat) = 0)" by simp
  have h6: "((31070023::nat) * 2 ^ 32 + 3329032192) mod 10000 = 0
      \<and> (31070023::nat) * 2 ^ 32 + 3329032192 < 2 ^ 57" by simp
  from parseFileTime_double_precision [OF h1 h2 h3 h4 h5, THEN conjunct2, THEN conjunct2,
      rule_format, OF h6]
  have "parseFileTime ?w 0 = Inr (Some (Date (exactUnixMs 3329032192 31070023)))" .
  then have "parseFileTime ?w 0 = Inr (Some (Date 1700000000000))"
    by (simp add: exactUnixMs_def)
  then show ?thesis using h6 by (simp add: lo hi)
qed

text \<open>
  The claim as stated asks for the exact value at every 64-bit tick count.  The tick count
  \<open>133444735999999999\<close> (one tick before 2023-11-14T22:13:20.000Z) is rounded to the next
  multiple of 16 by the addition, and the returned instant is one millisecond later than
  the exact one.
\<close>

theorem parseFileTime_not_exact_counterexample:
  "parseFileTime [0xff, 0xff, 0x6c, 0xc6, 0x47, 0x17, 0xda, 0x01] 0
     = Inr (Some (Date 1700000000000))
   \<and> exactUnixMs (le32 [0xff, 0xff, 0x6c, 0xc6, 0x47, 0x17, 0xda, 0x01] 0)
                  (le32 [0xff, 0xff, 0x6c, 0xc6, 0x47, 0x17, 0xda, 0x01] 4)
     = 1699999999999"
  using cex_time by (simp add: exactUnixMs_def le32_def)

text \<open>
  Claim C3.  A notification of at most 16 bytes is a heartbeat: the handler does nothing
  at all, so no decode is attempted and nothing is sent.  For a length from 17 to 83 the
  decode fails with the too-short warning, returns null, and nothing is sent.  An entry
  is only ever produced from a buffer of at least 84 bytes.
\<close>

theorem length_classification:
  "(length b \<le> 16 \<longrightarrow> onEventData minSeverity (Buffer b) = [])
   \<and> (17 \<le> length b \<and> length b \<le> 83 \<longrightarrow>
        parseEventEntry (Buffer b) = ([Warn_too_short (Some (length b))], Inr None)
        \<and> onEventData minSeverity (Buffer b) = [Warn_too_short (Some (length b))])
   \<and> (snd (parseEventEntry v) = Inr (Some e) \<longrightarrow> (\<exists>d. v = Buffer d \<and> 84 \<le> length d))"
proof (intro conjI impI)
  assume "length b \<le> 16"
  then show "onEventData minSeverity (Buffer b) = []"
    by (simp add: onEventData_def HEARTBEAT_SIZE_def)
next
  assume a: "17 \<le> length b \<and> length b \<le> 83"
  then show p: "parseEventEntry (Buffer b) = ([Warn_too_short (Some (length b))], Inr None)"
    by (intro parseEventEntry_short) simp
  from a have "b \<noteq> []" by auto
  with a show "onEventData minSeverity (Buffer b) = [Warn_too_short (Some (length b))]"
    by (simp add: onEventData_def HEARTBEAT_SIZE_def p)
next
  assume a: "snd (parseEventEntry v) = Inr (Some e)"
  show "\<exists>d. v = Buffer d \<and> 84 \<le> length d"
  proof (cases v)
    case (Buffer d)
    with a have "\<not> length d < 84"
      by (auto simp: parseEventEntry_def MIN_EVENT_SIZE_def split: if_splits)
    with Buffer show ?thesis by simp
  next
    case NotBuffer
    with a show ?thesis by (simp add: parseEventEntry_def)
  qed
qed

theorem length_classification_witness:
  "length (replicate 16 (0::byte)) \<le> 16
   \<and> onEventData 0 (Buffer (replicate 16 0)) = []
   \<and> 17 \<le> length (replicate 50 (0::byte)) \<and> length (replicate 50 (0::byte)) \<le> 83
   \<and> parseEventEntry (Buffer (replicate 50 0)) = ([Warn_too_short (Some 50)], Inr None)
   \<and> onEventData 0 (Buffer (replicate 50 0)) = [Warn_too_short (Some 50)]
   \<and> (\<exists>e. snd (parseEventEntry (Buffer (replicate 84 0))) = Inr (Some e))
   \<and> (\<exists>d. Buffer (replicate 84 0) = Buffer d \<and> 84 \<le> length d)"
proof -
  obtain e where e: "parseEventEntry_body (replicate 84 0) = Inr (Some e)"
    using parseEventEntry_body_fields [of "replicate 84 0"] by auto
  then have s: "snd (parseEventEntry (Buffer (replicate 84 0))) = Inr (Some e)"
    by (simp add: parseEventEntry_long)
  from s length_classification [of "replicate 16 0" 0 "Buffer (replicate 84 0)" e]
    length_classification [of "replicate 50 0" 0 "Buffer (replicate 84 0)" e]
  show ?thesis by auto
qed

text \<open>
  Claim C4.  For a buffer of at least 84 bytes the decode succeeds.  If the byte at
  offset 36 is at most 4, the severity level is that byte and the severity name is the
  corresponding element of Verbose, Info, Warning, Error, Critical; for any other byte
  value the level is 0 and the name is Verbose.
\<close>

theorem severity_mapping:
  assumes "84 \<le> length b"
  shows "\<exists>e. parseEventEntry (Buffer b) = ([], Inr (Some e))
     \<and> (unat (b ! 36) \<le> 4 \<longrightarrow>
          severityLevel e = unat (b ! 36)
          \<and> severity e = [''Verbose'', ''Info'', ''Warning'', ''Error'', ''Critical'']
                            ! unat (b ! 36))
     \<and> (4 < unat (b ! 36) \<longrightarrow> severityLevel e = 0 \<and> severity e = ''Verbose'')"
proof -
  from parseEventEntry_body_fields [OF assms] obtain e where
    "parseEventEntry_body b = Inr (Some e)"
    "severityLevel e = (if unat (b ! 36) \<le> 4 then unat (b ! 36) else 0)"
    "severity e = (if unat (b ! 36) \<le> 4
                   then [''Verbose'', ''Info'', ''Warning'', ''Error'', ''Critical'']
                          ! unat (b ! 36)
                   else ''Verbose'')"
    by blast
  then show ?thesis using assms by (simp add: parseEventEntry_long)
qed

theorem severity_mapping_witness:
  "84 \<le> length (replicate 36 0 @ [99] @ replicate 47 (0::byte))
   \<and> 84 \<le> length (replicate 36 0 @ [3] @ replicate 47 (0::byte))
   \<and> (\<exists>e. parseEventEntry (Buffer (replicate 36 0 @ [99] @ replicate 47 0)) = ([], Inr (Some e))
          \<and> severityLevel e = 0 \<and> severity e = ''Verbose'')
   \<and> (\<exists>e. parseEventEntry (Buffer (replicate 36 0 @ [3] @ replicate 47 0)) = ([], Inr (Some e))
          \<and> severityLevel e = 3 \<and> severity e = ''Error'')"
  using severity_mapping [of "replicate 36 0 @ [99] @ replicate 47 0"]
    severity_mapping [of "replicate 36 0 @ [3] @ replicate 47 0"]
  by (simp add: nth_append)

text \<open>
  Claim C6.  For a buffer of at least 84 bytes, each of \<open>timeRaised\<close>, \<open>timeCleared\<close> and
  \<open>timeConfirmed\<close> is absent exactly when the eight bytes at offset 60, 68 and 76
  respectively are all zero; a field that is not all zero yields a valid instant.
\<close>

theorem timestamp_absent_iff_zero:
  assumes "84 \<le> length b"
  shows "\<exists>e. parseEventEntry (Buffer b) = ([], Inr (Some e))
     \<and> (timeRaised e = None \<longleftrightarrow> take 8 (drop 60 b) = replicate 8 0)
     \<and> (timeCleared e = None \<longleftrightarrow> take 8 (drop 68 b) = replicate 8 0)
     \<and> (timeConfirmed e = None \<longleftrightarrow> take 8 (drop 76 b) = replicate 8 0)
     \<and> (timeRaised e = None \<or> (\<exists>ms. timeRaised e = Some (Date ms)))
     \<and> (timeCleared e = None \<or> (\<exists>ms. timeCleared e = Some (Date ms)))
     \<and> (timeConfirmed e = None \<or> (\<exists>ms. timeConfirmed e = Some (Date ms)))"
proof -
  from parseEventEntry_body_fields [OF assms] obtain e where e:
    "parseEventEntry_body b = Inr (Some e)"
    "timeRaised e = fileTimeAt b 60"
    "timeCleared e = fileTimeAt b 68"
    "timeConfirmed e = fileTimeAt b 76"
    by blast
  have l: "60 + 8 \<le> length b" "68 + 8 \<le> length b" "76 + 8 \<le> length b"
    using assms by simp_all
  have p: "parseEventEntry (Buffer b) = ([], Inr (Some e))"
    using assms e(1) by (simp add: parseEventEntry_long)
  show ?thesis
  proof (intro exI [of _ e] conjI)
    show "parseEventEntry (Buffer b) = ([], Inr (Some e))" by (rule p)
    show "timeRaised e = None \<longleftrightarrow> take 8 (drop 60 b) = replicate 8 0"
      unfolding e(2) using l(1) by (rule fileTimeAt_None_iff)
    show "timeCleared e = None \<longleftrightarrow> take 8 (drop 68 b) = replicate 8 0"
      unfolding e(3) using l(2) by (rule fileTimeAt_None_iff)
    show "timeConfirmed e = None \<longleftrightarrow> take 8 (drop 76 b) = replicate 8 0"
      unfolding e(4) using l(3) by (rule fileTimeAt_None_iff)
    show "timeRaised e = None \<or> (\<exists>ms. timeRaised e = Some (Date ms))"
      unfolding e(2) by (rule fileTimeAt_valid)
    show "timeCleared e = None \<or> (\<exists>ms. timeCleared e = Some (Date ms))"
      unfolding e(3) by (rule fileTimeAt_valid)
    show "timeConfirmed e = None \<or> (\<exists>ms. timeConfirmed e = Some (Date ms))"
      unfolding e(4) by (rule fileTimeAt_valid)
  qed
qed

theorem timestamp_absent_iff_zero_witness:
  "84 \<le> length (replicate 68 0 @ [0, 0, 0x6d, 0xc6, 0x47, 0x17, 0xda, 0x01] @ replicate 8 (0::byte))
   \<and> (\<exists>e. parseEventEntry (Buffer (replicate 68 0
              @ [0, 0, 0x6d, 0xc6, 0x47, 0x17, 0xda, 0x01] @ replicate 8 0)) = ([], Inr (Some e))
          \<and> timeRaised e = None
          \<and> (\<exists>ms. timeCleared e = Some (Date ms))
          \<and> timeConfirmed e = None)"
proof -
  let ?b = "replicate 68 0 @ [0, 0, 0x6d, 0xc6, 0x47, 0x17, 0xda, 0x01] @ replicate 8 (0::byte)"
  have len: "84 \<le> length ?b" by simp
  from timestamp_absent_iff_zero [OF len] obtain e where
    p: "parseEventEntry (Buffer ?b) = ([], Inr (Some e))"
    and r: "timeRaised e = None \<longleftrightarrow> take 8 (drop 60 ?b) = replicate 8 0"
    and c: "timeCleared e = None \<longleftrightarrow> take 8 (drop 68 ?b) = replicate 8 0"
    and f: "timeConfirmed e = None \<longleftrightarrow> take 8 (drop 76 ?b) = replicate 8 0"
    and v: "timeCleared e = None \<or> (\<exists>ms. timeCleared e = Some (Date ms))"
    by (elim exE conjE) (rule that)
  from r have "timeRaised e = None" by (simp add: replicate8)
  moreover from c have "timeCleared e \<noteq> None" by (simp add: replicate8)
  with v have "\<exists>ms. timeCleared e = Some (Date ms)" by blast
  moreover from f have "timeConfirmed e = None" by (simp add: replicate8)
  ultimately have "parseEventEntry (Buffer ?b) = ([], Inr (Some e))
      \<and> timeRaised e = None
      \<and> (\<exists>ms. timeCleared e = Some (Date ms))
      \<and> timeConfirmed e = None"
    using p by (intro conjI)
  then have "\<exists>e. parseEventEntry (Buffer ?b) = ([], Inr (Some e))
      \<and> timeRaised e = None
      \<and> (\<exists>ms. timeCleared e = Some (Date ms))
      \<and> timeConfirmed e = None" by (rule exI)
  with len show ?thesis by (rule conjI)
qed

text \<open>
  Claim C7.  For a buffer of at least 84 bytes, \<open>isAlarm\<close> holds exactly when the 32-bit
  little-endian field at offset 40 equals 2, and \<open>alarmState\<close> is Raised when the byte at
  offset 52 equals 1 and Cleared for every other byte value.
\<close>

theorem alarm_derivation:
  assumes "84 \<le> length b"
  shows "\<exists>e. parseEventEntry (Buffer b) = ([], Inr (Some e))
     \<and> (isAlarm e \<longleftrightarrow> le32 b 40 = 2)
     \<and> alarmState e = (if b ! 52 = 1 then ''Raised'' else ''Cleared'')"
proof -
  from parseEventEntry_body_fields [OF assms] obtain e where
    "parseEventEntry_body b = Inr (Some e)"
    "isAlarm e = (le32 b 40 = 2)"
    "alarmState e = (if unat (b ! 52) = 1 then ''Raised'' else ''Cleared'')"
    by blast
  moreover have "unat (b ! 52) = 1 \<longleftrightarrow> b ! 52 = 1"
    using word_unat_eq_iff [of "b ! 52" 1] by simp
  ultimately show ?thesis using assms by (simp add: parseEventEntry_long)
qed

theorem alarm_derivation_witness:
  "84 \<le> length (replicate 40 0 @ [2] @ replicate 11 0 @ [1] @ replicate 31 (0::byte))
   \<and> (\<exists>e. parseEventEntry
             (Buffer (replicate 40 0 @ [2] @ replicate 11 0 @ [1] @ replicate 31 0))
            = ([], Inr (Some e))
          \<and> isAlarm e \<and> alarmState e = ''Raised'')
   \<and> 84 \<le> length (replicate 40 0 @ [2, 1] @ replicate 10 0 @ [7] @ replicate 31 (0::byte))
   \<and> (\<exists>e. parseEventEntry
             (Buffer (replicate 40 0 @ [2, 1] @ replicate 10 0 @ [7] @ replicate 31 0))
            = ([], Inr (Some e))
          \<and> \<not> isAlarm e \<and> alarmState e = ''Cleared'')"
  using alarm_derivation [of "replicate 40 0 @ [2] @ replicate 11 0 @ [1] @ replicate 31 0"]
    alarm_derivation [of "replicate 40 0 @ [2, 1] @ replicate 10 0 @ [7] @ replicate 31 0"]
  by (simp add: nth_append le32_def)

section \<open>The severity filter\<close>















section \<open>The connected notification\<close>

lemma emitted_append: "emitted (xs @ ys) = emitted xs @ emitted ys"
  by (simp add: emitted_def)

lemma flags_emit:
  "flags (emit x s) = (this_connected s, this_firstConnectedEventSent s,
     emitted (effects s) @ (case x of Emit_connected b \<Rightarrow> [b] | _ \<Rightarrow> []))"
  by (simp add: flags_def emit_def emitted_def)

lemma flags_internal_subscribe: "flags (snd (internal_subscribe s)) = flags s"
  by (simp add: internal_subscribe_def flags_def emit_def emitted_def Let_def split: option.splits)

lemma flags_addSubscriber: "flags (addSubscriber s) = flags s"
proof -
  obtain w t where i: "internal_subscribe (s\<lparr>this_subscriberCount := this_subscriberCount s + 1\<rparr>) = (w, t)"
    by (cases "internal_subscribe (s\<lparr>this_subscriberCount := this_subscriberCount s + 1\<rparr>)")
  have "flags t = flags (s\<lparr>this_subscriberCount := this_subscriberCount s + 1\<rparr>)"
    using flags_internal_subscribe [of "s\<lparr>this_subscriberCount := this_subscriberCount s + 1\<rparr>"] i
    by simp
  then have t: "flags t = flags s" by (simp add: flags_def)
  show ?thesis
    using t by (cases w) (simp_all add: addSubscriber_def Let_def i flags_def emit_def emitted_def)
qed

lemma flags_listeners: "flags (listeners n s) = flags s"
  by (induction n arbitrary: s) (simp_all add: flags_addSubscriber)

lemma flags_removeSubscriber: "flags (removeSubscriber s) = flags s"
  by (simp add: removeSubscriber_def internal_unsubscribe_def emit_def Let_def flags_def
      emitted_def split: option.splits)

lemma emitted_resume: "emitted (resume ok cs) = []"
  by (induction ok cs rule: resume.induct) (simp_all add: emitted_def)

lemma effects_subscribe_settled:
  "this_subscribing s = Some p \<Longrightarrow>
     effects (subscribe_settled r s)
       = effects s @ [case r of Some h \<Rightarrow> Log_subscription_active | None \<Rightarrow> Warn_subscribe_failed]
         @ resume (r \<noteq> None) (awaiting s)"
  by (cases r) (simp_all add: subscribe_settled_def emit_def Let_def)

lemma flags_subscribe_settled: "flags (subscribe_settled r s) = flags s"
proof (cases "this_subscribing s")
  case None
  then show ?thesis by (simp add: subscribe_settled_def)
next
  case (Some p)
  have "emitted [case r of Some h \<Rightarrow> Log_subscription_active | None \<Rightarrow> Warn_subscribe_failed] = []"
    by (cases r) (simp_all add: emitted_def)
  then have "emitted (effects (subscribe_settled r s)) = emitted (effects s)"
    by (simp only: effects_subscribe_settled [OF Some] emitted_append emitted_resume) simp
  moreover have "this_connected (subscribe_settled r s) = this_connected s"
    "this_firstConnectedEventSent (subscribe_settled r s) = this_firstConnectedEventSent s"
    using Some by (cases r; simp add: subscribe_settled_def emit_def Let_def)+
  ultimately show ?thesis by (simp add: flags_def)
qed

lemma flags_unsubscribe_settled: "flags (unsubscribe_settled ok s) = flags s"
  by (simp add: unsubscribe_settled_def emit_def Let_def flags_def emitted_def)

lemma flags_resubscribe: "flags (resubscribe s) = flags s"
proof -
  obtain w t where i: "internal_subscribe s = (w, t)" by (cases "internal_subscribe s")
  have t: "flags t = flags s" using flags_internal_subscribe [of s] i by simp
  show ?thesis
    using t by (cases w) (simp_all add: resubscribe_def i flags_def emit_def emitted_def)
qed

lemma flags_announce:
  "flags (announce c n s) = (this_connected s, this_firstConnectedEventSent s,
     emitted (effects s)
       @ (if this_connected s \<noteq> c \<or> \<not> this_firstConnectedEventSent s then [c] else []))"
  by (simp add: announce_def Let_def flags_listeners flags_emit) (simp add: flags_def)

lemma flags_onConnectedStateChange:
  "flags (onConnectedStateChange c n s) = (c, True,
     emitted (effects s)
       @ (if this_connected s \<noteq> c \<or> \<not> this_firstConnectedEventSent s then [c] else []))"
proof -
  define s2 where "s2 = (announce c n s)\<lparr>this_connected := c, this_firstConnectedEventSent := True\<rparr>"
  have f2: "flags s2 = (c, True, emitted (effects s)
       @ (if this_connected s \<noteq> c \<or> \<not> this_firstConnectedEventSent s then [c] else []))"
    using flags_announce [of c n s] by (simp add: s2_def flags_def)
  have "onConnectedStateChange c n s = (if c then resubscribe s2 else s2\<lparr>this_subscription := None\<rparr>)"
    by (simp add: onConnectedStateChange_def s2_def Let_def)
  moreover have "flags (s2\<lparr>this_subscription := None\<rparr>) = flags s2" by (simp add: flags_def)
  ultimately show ?thesis using f2 flags_resubscribe [of s2] by simp
qed

lemma flags_step_other:
  "signals [e] = [] \<Longrightarrow> flags (step e s) = flags s"
  by (cases e)
    (simp_all add: flags_addSubscriber flags_removeSubscriber flags_subscribe_settled
      flags_unsubscribe_settled signals_def, simp add: flags_def)

lemma signals_Cons: "signals (e # es) = signals [e] @ signals es"
  by (simp add: signals_def)

lemma emitted_run:
  "emitted (effects (run es s))
     = emitted (effects s)
       @ (if this_firstConnectedEventSent s
          then tl (remdups_adj (this_connected s # signals es))
          else remdups_adj (signals es))"
proof (induction es arbitrary: s)
  case Nil
  then show ?case by (simp add: signals_def)
next
  case (Cons e es)
  show ?case
  proof (cases e)
    case (ConnectedSignal c n)
    have f: "flags (step e s) = (c, True, emitted (effects s)
       @ (if this_connected s \<noteq> c \<or> \<not> this_firstConnectedEventSent s then [c] else []))"
      using ConnectedSignal by (simp add: flags_onConnectedStateChange)
    then have "this_connected (step e s) = c" "this_firstConnectedEventSent (step e s)"
      "emitted (effects (step e s)) = emitted (effects s)
       @ (if this_connected s \<noteq> c \<or> \<not> this_firstConnectedEventSent s then [c] else [])"
      by (simp_all add: flags_def)
    moreover have "signals (e # es) = c # signals es"
      using ConnectedSignal by (simp add: signals_def)
    ultimately show ?thesis using Cons.IH [of "step e s"] by auto
  next
    case AddSubscriber
    then have "signals [e] = []" by (simp add: signals_def)
    from flags_step_other [OF this, of s] signals_Cons [of e es] this Cons.IH [of "step e s"]
    show ?thesis by (simp add: flags_def)
  next
    case RemoveSubscriber
    then have "signals [e] = []" by (simp add: signals_def)
    from flags_step_other [OF this, of s] signals_Cons [of e es] this Cons.IH [of "step e s"]
    show ?thesis by (simp add: flags_def)
  next
    case (SubscribeSettled r)
    then have "signals [e] = []" by (simp add: signals_def)
    from flags_step_other [OF this, of s] signals_Cons [of e es] this Cons.IH [of "step e s"]
    show ?thesis by (simp add: flags_def)
  next
    case (UnsubscribeSettled ok)
    then have "signals [e] = []" by (simp add: signals_def)
    from flags_step_other [OF this, of s] signals_Cons [of e es] this Cons.IH [of "step e s"]
    show ?thesis by (simp add: flags_def)
  next
    case (ClientChanged a b)
    then have "signals [e] = []" by (simp add: signals_def)
    from flags_step_other [OF this, of s] signals_Cons [of e es] this Cons.IH [of "step e s"]
    show ?thesis by (simp add: flags_def)
  qed
qed

text \<open>
  Claim C9.  For every sequence of events, the \<^verbatim>\<open>connected\<close> notifications emitted are the
  signals delivered with adjacent repetitions removed: one notification per actual change
  of state, the first signal being notified whatever it reports because nothing was sent
  before.  A signal that repeats the recorded state emits nothing; a signal that differs
  from it, or the very first one, emits exactly once.
\<close>

theorem connected_signal_once_per_change:
  "emitted (effects (run es s))
     = emitted (effects s)
       @ (if this_firstConnectedEventSent s
          then tl (remdups_adj (this_connected s # signals es))
          else remdups_adj (signals es))
   \<and> emitted (effects (run es initial)) = remdups_adj (signals es)
   \<and> (this_firstConnectedEventSent s \<and> this_connected s = c \<longrightarrow>
        emitted (effects (onConnectedStateChange c n s)) = emitted (effects s))
   \<and> (this_connected s \<noteq> c \<or> \<not> this_firstConnectedEventSent s \<longrightarrow>
        emitted (effects (onConnectedStateChange c n s)) = emitted (effects s) @ [c])"
proof -
  have "emitted (effects (run es initial)) = remdups_adj (signals es)"
    using emitted_run [of es initial] by (simp add: initial_def emitted_def)
  moreover have "emitted (effects (onConnectedStateChange c n s))
      = emitted (effects s)
        @ (if this_connected s \<noteq> c \<or> \<not> this_firstConnectedEventSent s then [c] else [])"
    using flags_onConnectedStateChange [of c n s] by (simp add: flags_def)
  ultimately show ?thesis using emitted_run [of es s] by simp
qed

theorem connected_signal_once_per_change_witness:
  "emitted (effects (run [ConnectedSignal True 2, ConnectedSignal True 2, AddSubscriber,
        ConnectedSignal False 2, ConnectedSignal False 2, ConnectedSignal True 2] initial))
     = [True, False, True]
   \<and> this_firstConnectedEventSent (onConnectedStateChange True 1 initial)
   \<and> this_connected (onConnectedStateChange True 1 initial) = True
   \<and> emitted (effects (onConnectedStateChange True 1 (onConnectedStateChange True 1 initial)))
       = emitted (effects (onConnectedStateChange True 1 initial))
   \<and> this_connected (onConnectedStateChange True 1 initial) \<noteq> False
   \<and> emitted (effects (onConnectedStateChange False 1 (onConnectedStateChange True 1 initial)))
       = emitted (effects (onConnectedStateChange True 1 initial)) @ [False]"
proof -
  have f: "this_firstConnectedEventSent (onConnectedStateChange True 1 initial)"
    "this_connected (onConnectedStateChange True 1 initial) = True"
    using flags_onConnectedStateChange [of True 1 initial] by (simp_all add: flags_def)
  have s: "signals [ConnectedSignal True 2, ConnectedSignal True 2, AddSubscriber,
        ConnectedSignal False 2, ConnectedSignal False 2, ConnectedSignal True 2]
      = [True, True, False, False, True]"
    by (simp add: signals_def)
  from connected_signal_once_per_change [of
      "[ConnectedSignal True 2, ConnectedSignal True 2, AddSubscriber,
        ConnectedSignal False 2, ConnectedSignal False 2, ConnectedSignal True 2]"
      "onConnectedStateChange True 1 initial" True 1]
    connected_signal_once_per_change [of "[]" "onConnectedStateChange True 1 initial" False 1]
  show ?thesis using f by (simp add: s)
qed

section \<open>The subscriber count and the teardown\<close>

lemma count_internal_subscribe:
  "this_subscriberCount (snd (internal_subscribe s)) = this_subscriberCount s"
  by (simp add: internal_subscribe_def emit_def Let_def split: option.splits)

lemma count_addSubscriber: "this_subscriberCount (addSubscriber s) = this_subscriberCount s + 1"
proof -
  let ?s1 = "s\<lparr>this_subscriberCount := this_subscriberCount s + 1\<rparr>"
  obtain w t where i: "internal_subscribe ?s1 = (w, t)" by (cases "internal_subscribe ?s1")
  have t: "this_subscriberCount t = this_subscriberCount s + 1"
    using count_internal_subscribe [of ?s1] i by simp
  show ?thesis
    using t by (cases w) (simp_all add: addSubscriber_def Let_def i emit_def)
qed

lemma count_listeners: "this_subscriberCount (listeners n s) = this_subscriberCount s + int n"
  by (induction n arbitrary: s) (simp_all add: count_addSubscriber)

lemma count_removeSubscriber:
  "this_subscriberCount (removeSubscriber s) = max 0 (this_subscriberCount s - 1)"
  by (simp add: removeSubscriber_def internal_unsubscribe_def emit_def Let_def
      split: option.splits)

lemma count_subscribe_settled:
  "this_subscriberCount (subscribe_settled r s) = this_subscriberCount s"
  by (cases r; cases "this_subscribing s") (simp_all add: subscribe_settled_def emit_def Let_def)

lemma count_unsubscribe_settled:
  "this_subscriberCount (unsubscribe_settled ok s) = this_subscriberCount s"
  by (simp add: unsubscribe_settled_def emit_def Let_def)

lemma count_resubscribe: "this_subscriberCount (resubscribe s) = this_subscriberCount s"
proof -
  obtain w t where i: "internal_subscribe s = (w, t)" by (cases "internal_subscribe s")
  have t: "this_subscriberCount t = this_subscriberCount s"
    using count_internal_subscribe [of s] i by simp
  show ?thesis using t by (cases w) (simp_all add: resubscribe_def i emit_def)
qed

lemma count_announce: "this_subscriberCount s \<le> this_subscriberCount (announce c n s)"
  by (simp add: announce_def Let_def count_listeners emit_def)

lemma count_onConnectedStateChange:
  "this_subscriberCount s \<le> this_subscriberCount (onConnectedStateChange c n s)"
  using count_announce [of s c n]
  by (cases c) (simp_all add: onConnectedStateChange_def Let_def count_resubscribe)

lemma count_step_nonneg: "0 \<le> this_subscriberCount s \<Longrightarrow> 0 \<le> this_subscriberCount (step e s)"
  using count_onConnectedStateChange [of s]
  by (cases e)
    (simp_all add: count_addSubscriber count_removeSubscriber count_subscribe_settled
      count_unsubscribe_settled order_trans)

lemma count_run_nonneg: "0 \<le> this_subscriberCount s \<Longrightarrow> 0 \<le> this_subscriberCount (run es s)"
  by (induction es arbitrary: s) (simp_all add: count_step_nonneg)

lemma removeSubscriber_last:
  assumes "this_subscriberCount s \<le> 1" "this_subscription s = Some h"
  shows "effects (removeSubscriber s) = effects s @ [Unsubscribe h]"
    and "pending_unsubscribes (removeSubscriber s) = pending_unsubscribes s + 1"
  using assms by (simp_all add: removeSubscriber_def internal_unsubscribe_def emit_def Let_def)

lemma unsubscribe_settled_pending:
  assumes "0 < pending_unsubscribes t"
  shows "this_subscription (unsubscribe_settled ok t) = None"
    and "effects (unsubscribe_settled ok t)
      = effects t @ [if ok then Log_subscription_removed else Warn_unsubscribe_failed,
                     Settled RemoveSubscriberCall True]"
  using assms by (simp_all add: unsubscribe_settled_def emit_def Let_def)

lemma resume_no_failed_remove:
  "RemoveSubscriberCall \<notin> set cs \<Longrightarrow> Settled RemoveSubscriberCall False \<notin> set (resume ok cs)"
  by (induction ok cs rule: resume.induct) auto

lemma nfr_addSubscriber: "no_failed_remove s \<Longrightarrow> no_failed_remove (addSubscriber s)"
  by (auto simp: no_failed_remove_def addSubscriber_def internal_subscribe_def emit_def Let_def
      split: option.splits)

lemma nfr_listeners: "no_failed_remove s \<Longrightarrow> no_failed_remove (listeners n s)"
  by (induction n arbitrary: s) (simp_all add: nfr_addSubscriber)

lemma nfr_removeSubscriber: "no_failed_remove s \<Longrightarrow> no_failed_remove (removeSubscriber s)"
  by (auto simp: no_failed_remove_def removeSubscriber_def internal_unsubscribe_def emit_def
      Let_def split: option.splits)

lemma nfr_resubscribe: "no_failed_remove s \<Longrightarrow> no_failed_remove (resubscribe s)"
  by (auto simp: no_failed_remove_def resubscribe_def internal_subscribe_def emit_def Let_def
      split: option.splits)

lemma nfr_announce: "no_failed_remove s \<Longrightarrow> no_failed_remove (announce c n s)"
proof -
  assume a: "no_failed_remove s"
  then have "no_failed_remove (emit (Emit_connected c) s)"
    by (simp add: no_failed_remove_def emit_def)
  then show ?thesis using a by (cases c) (simp_all add: announce_def Let_def nfr_listeners)
qed

lemma nfr_onConnectedStateChange:
  assumes "no_failed_remove s"
  shows "no_failed_remove (onConnectedStateChange c n s)"
proof -
  define s2 where "s2 = (announce c n s)\<lparr>this_connected := c, this_firstConnectedEventSent := True\<rparr>"
  have "no_failed_remove s2"
    using nfr_announce [OF assms, of c n] by (simp add: s2_def no_failed_remove_def)
  moreover from this have "no_failed_remove (s2\<lparr>this_subscription := None\<rparr>)"
    by (simp add: no_failed_remove_def)
  moreover have "onConnectedStateChange c n s
      = (if c then resubscribe s2 else s2\<lparr>this_subscription := None\<rparr>)"
    by (simp add: onConnectedStateChange_def s2_def Let_def)
  ultimately show ?thesis by (simp add: nfr_resubscribe)
qed

lemma nfr_subscribe_settled:
  assumes "no_failed_remove s"
  shows "no_failed_remove (subscribe_settled r s)"
proof (cases "this_subscribing s")
  case None
  then show ?thesis using assms by (simp add: subscribe_settled_def)
next
  case (Some p)
  have "awaiting (subscribe_settled r s) = []"
    using Some by (cases r) (simp_all add: subscribe_settled_def emit_def Let_def)
  moreover have "Settled RemoveSubscriberCall False \<notin> set (effects (subscribe_settled r s))"
    using assms resume_no_failed_remove [of "awaiting s" "r \<noteq> None"]
    by (cases r) (auto simp: effects_subscribe_settled [OF Some] no_failed_remove_def)
  ultimately show ?thesis by (simp add: no_failed_remove_def)
qed

lemma nfr_unsubscribe_settled:
  "no_failed_remove s \<Longrightarrow> no_failed_remove (unsubscribe_settled ok s)"
  by (auto simp: no_failed_remove_def unsubscribe_settled_def emit_def Let_def)

lemma nfr_step: "no_failed_remove s \<Longrightarrow> no_failed_remove (step e s)"
  by (cases e)
    (simp_all add: nfr_addSubscriber nfr_removeSubscriber nfr_onConnectedStateChange
      nfr_subscribe_settled nfr_unsubscribe_settled, simp add: no_failed_remove_def)

lemma nfr_run: "no_failed_remove s \<Longrightarrow> no_failed_remove (run es s)"
  by (induction es arbitrary: s) (simp_all add: nfr_step)

text \<open>
  Claim C8.  \<^verbatim>\<open>removeSubscriber\<close> sets the count to \<open>max 0 (count - 1)\<close>; the count is never
  negative in any reachable state.  When the count reaches 0 and a subscription exists,
  the transport's \<^verbatim>\<open>unsubscribe\<close> is called; when that call settles, the handle is cleared
  and the caller's promise is fulfilled whether the transport succeeded or failed, a
  failure being logged as a warning.  No call of \<^verbatim>\<open>removeSubscriber\<close> is ever rejected.
\<close>

theorem removeSubscriber_postcondition:
  "this_subscriberCount (removeSubscriber s) = max 0 (this_subscriberCount s - 1)
   \<and> 0 \<le> this_subscriberCount (removeSubscriber s)
   \<and> 0 \<le> this_subscriberCount (run es initial)
   \<and> Settled RemoveSubscriberCall False \<notin> set (effects (run es initial))
   \<and> (this_subscriberCount s \<le> 1 \<and> this_subscription s = Some h \<longrightarrow>
        effects (removeSubscriber s) = effects s @ [Unsubscribe h]
        \<and> this_subscription (unsubscribe_settled ok (removeSubscriber s)) = None
        \<and> effects (unsubscribe_settled ok (removeSubscriber s))
            = effects s @ [Unsubscribe h,
                           if ok then Log_subscription_removed else Warn_unsubscribe_failed,
                           Settled RemoveSubscriberCall True])
   \<and> (0 < pending_unsubscribes t \<longrightarrow>
        this_subscription (unsubscribe_settled ok t) = None
        \<and> effects (unsubscribe_settled ok t)
            = effects t @ [if ok then Log_subscription_removed else Warn_unsubscribe_failed,
                           Settled RemoveSubscriberCall True])"
proof (intro conjI impI)
  show "this_subscriberCount (removeSubscriber s) = max 0 (this_subscriberCount s - 1)"
    by (rule count_removeSubscriber)
  then show "0 \<le> this_subscriberCount (removeSubscriber s)" by simp
  show "0 \<le> this_subscriberCount (run es initial)"
    by (rule count_run_nonneg) (simp add: initial_def)
  have "no_failed_remove initial" by (simp add: no_failed_remove_def initial_def)
  then have "no_failed_remove (run es initial)" by (rule nfr_run)
  then show "Settled RemoveSubscriberCall False \<notin> set (effects (run es initial))"
    by (simp add: no_failed_remove_def)
next
  assume a: "this_subscriberCount s \<le> 1 \<and> this_subscription s = Some h"
  then have r: "effects (removeSubscriber s) = effects s @ [Unsubscribe h]"
    "0 < pending_unsubscribes (removeSubscriber s)"
    using removeSubscriber_last [of s h] by simp_all
  show "effects (removeSubscriber s) = effects s @ [Unsubscribe h]" by (rule r)
  show "this_subscription (unsubscribe_settled ok (removeSubscriber s)) = None"
    using r(2) by (rule unsubscribe_settled_pending)
  show "effects (unsubscribe_settled ok (removeSubscriber s))
      = effects s @ [Unsubscribe h,
                     if ok then Log_subscription_removed else Warn_unsubscribe_failed,
                     Settled RemoveSubscriberCall True]"
    using unsubscribe_settled_pending(2) [OF r(2), of ok] r(1) by simp
next
  assume "0 < pending_unsubscribes t"
  then show "this_subscription (unsubscribe_settled ok t) = None"
    and "effects (unsubscribe_settled ok t)
      = effects t @ [if ok then Log_subscription_removed else Warn_unsubscribe_failed,
                     Settled RemoveSubscriberCall True]"
    by (rule unsubscribe_settled_pending)+
qed

theorem removeSubscriber_postcondition_witness:
  "this_subscriberCount (initial\<lparr>this_subscriberCount := 1, this_subscription := Some 5\<rparr>) \<le> 1
   \<and> this_subscription (initial\<lparr>this_subscriberCount := 1, this_subscription := Some 5\<rparr>)
       = Some 5
   \<and> this_subscriberCount
        (removeSubscriber (initial\<lparr>this_subscriberCount := 1, this_subscription := Some 5\<rparr>))
       = 0
   \<and> this_subscriberCount (removeSubscriber initial) = 0
   \<and> effects
        (removeSubscriber (initial\<lparr>this_subscriberCount := 1, this_subscription := Some 5\<rparr>))
       = [Unsubscribe 5]
   \<and> 0 < pending_unsubscribes
        (removeSubscriber (initial\<lparr>this_subscriberCount := 1, this_subscription := Some 5\<rparr>))
   \<and> this_subscription (unsubscribe_settled False
        (removeSubscriber (initial\<lparr>this_subscriberCount := 1, this_subscription := Some 5\<rparr>)))
       = None
   \<and> effects (unsubscribe_settled False
        (removeSubscriber (initial\<lparr>this_subscriberCount := 1, this_subscription := Some 5\<rparr>)))
       = [Unsubscribe 5, Warn_unsubscribe_failed, Settled RemoveSubscriberCall True]"
proof -
  let ?s = "initial\<lparr>this_subscriberCount := 1, this_subscription := Some 5\<rparr>"
  have h: "this_subscriberCount ?s \<le> 1" "this_subscription ?s = Some 5" "effects ?s = []"
    "this_subscriberCount ?s = 1" "this_subscriberCount initial = 0"
    by (simp_all add: initial_def)
  have p: "0 < pending_unsubscribes (removeSubscriber ?s)"
    using removeSubscriber_last(2) [OF h(1,2)] by simp
  from removeSubscriber_postcondition [of ?s "[]" 5 False "removeSubscriber ?s"]
    removeSubscriber_postcondition [of initial "[]" 5 False "removeSubscriber ?s"]
  show ?thesis using h p by simp
qed

section \<open>Single-flight subscribe\<close>













lemma silent_resume: "silent (resume ok cs)"
  by (induction ok cs rule: resume.induct)
    (simp_all add: silent_def subscribeRawCalls_def awaited_def)


































end
